theory Spec2Isabelle
  imports Main "HOL-Library.Word" "HOL-Library.Multiset"
begin

section \<open>Data model of \<open>schedule.hpp\<close>\<close>

text \<open>
  \<open>time32_t\<close> and \<open>id32_t\<close> are declared in \<open>platform.hpp\<close>, which is not among the sources.
  The name fixes the width of \<open>time32_t\<close> at 32 bits, and the chart code prints a
  \<open>time32_t\<close> with \<open>%zu\<close> (an unsigned conversion), so times are unsigned 32-bit words:
  \<open>+\<close> and \<open>-\<close> wrap around, \<open>\<le>\<close> and \<open>max\<close> compare the unsigned values.
  Identifiers (\<open>id32_t\<close>) are only compared and used as indices, never computed with, so
  they are kept as integers.
\<close>

type_synonym time32_t = "32 word"
type_synonym id32_t = int

text \<open>
  A \<open>task*\<close> points at \<open>data.jobs[j].sequence[i]\<close>; the model keeps the pair \<open>(j, i)\<close> of
  positions, \<open>None\<close> is \<open>nullptr\<close>.
\<close>

type_synonym task_ref = "nat \<times> nat"

text \<open>
  Names the logic reserves or already uses get a suffix: \<open>end_t\<close> is the field \<open>end\<close>,
  \<open>interval_empty\<close> is \<open>interval::empty\<close>, \<open>length_tl\<close> is \<open>timeline::length\<close>, \<open>job_id\<close> is
  the field \<open>id\<close> of a job.
\<close>

record interval =
  start :: time32_t
  end_t :: time32_t
  task :: "task_ref option"

definition infinity :: time32_t where
  "infinity = - 1"

definition interval_empty :: "time32_t \<Rightarrow> time32_t \<Rightarrow> interval" where
  "interval_empty s e = \<lparr>start = s, end_t = e, task = None\<rparr>"

definition occupied :: "interval \<Rightarrow> bool" where
  "occupied i = (task i \<noteq> None)"

text \<open>
  The two overloads of \<open>interval::includes\<close>: \<open>includes_time\<close> is \<open>includes(time)\<close> and
  \<open>includes_from\<close> is \<open>includes(from, duration)\<close>.
\<close>

definition includes_time :: "interval \<Rightarrow> time32_t \<Rightarrow> bool" where
  "includes_time i time = (start i \<le> time \<and> time \<le> end_t i)"

definition includes_from :: "interval \<Rightarrow> time32_t \<Rightarrow> time32_t \<Rightarrow> bool" where
  "includes_from i from_t d = (max (start i) from_t + d - 1 \<le> end_t i)"

text \<open>
  Undefined behaviour of the C++ code is a value of the model: indexing a vector out of
  range (or \<open>back()\<close> of an empty list), dereferencing or incrementing \<open>end()\<close>, and
  calling \<open>std::sort\<close> with a comparator that is not a strict weak ordering of the
  elements.
\<close>

datatype fault = Out_Of_Range | Past_The_End | Unordered

subsection \<open>Timeline\<close>

text \<open>
  A \<open>std::list<interval>\<close>. An iterator (\<open>timeline::pointer\<close>) is the position of its
  element in the list; \<open>end()\<close> is the length of the list.
\<close>

type_synonym timeline = "interval list"
type_synonym pointer = nat

fun interval_at :: "timeline \<Rightarrow> time32_t \<Rightarrow> pointer" where
  "interval_at [] time = 0"
| "interval_at (i # intervals) time =
     (if includes_time i time then 0 else Suc (interval_at intervals time))"

definition length_tl :: "timeline \<Rightarrow> fault + time32_t" where
  "length_tl intervals =
     (if intervals = [] then Inl Out_Of_Range
      else if occupied (last intervals) then Inr (end_t (last intervals) + 1)
      else Inr (start (last intervals)))"

definition add :: "timeline \<Rightarrow> interval \<Rightarrow> timeline" where
  "add intervals i = intervals @ [i]"

definition insert_before :: "timeline \<Rightarrow> pointer \<Rightarrow> interval \<Rightarrow> timeline" where
  "insert_before intervals it i = take it intervals @ i # drop it intervals"

definition insert_after :: "timeline \<Rightarrow> pointer \<Rightarrow> interval \<Rightarrow> timeline" where
  "insert_after intervals it i = take (Suc it) intervals @ i # drop (Suc it) intervals"

text \<open>\<open>operator<\<close> calls \<open>length()\<close> on both sides.\<close>

definition timeline_less :: "timeline \<Rightarrow> timeline \<Rightarrow> fault + bool" where
  "timeline_less a b =
     (case length_tl a of Inl e \<Rightarrow> Inl e
      | Inr la \<Rightarrow> (case length_tl b of Inl e \<Rightarrow> Inl e | Inr lb \<Rightarrow> Inr (la < lb)))"

subsection \<open>Jobs and tasks\<close>

text \<open>
  Modelled from the spec: \<open>dataset.hpp\<close> is not among the sources. A task has a machine,
  a duration and its assigned start time; a job has an identifier, its tasks in order and
  the completion cursor \<open>last_scheduled_time\<close>, initially 0; \<open>task.parent\<close> is the job whose
  \<open>sequence\<close> holds the task.
\<close>

record task =
  machine_id :: id32_t
  duration :: time32_t
  scheduled_time :: time32_t

record job =
  job_id :: id32_t
  sequence :: "task list"
  last_scheduled_time :: time32_t

record dataset =
  machine_count :: nat
  jobs :: "job list"

record schedule =
  table :: "timeline list"
  data :: dataset

subsection \<open>Placement\<close>

text \<open>
  \<open>schedule_task\<close> writes the block into the interval behind the handle, then inserts the
  free remainders around it. Inserting before the handle moves its element one position
  up, which is where \<open>insert_after\<close> then finds it. The task and its parent are both inside
  the job, which is returned updated.
\<close>

definition schedule_task ::
    "task_ref \<Rightarrow> job \<Rightarrow> timeline \<Rightarrow> pointer \<Rightarrow> time32_t \<Rightarrow> timeline \<times> job" where
  "schedule_task r parent timeline it start_time =
     (let t = sequence parent ! snd r;
          interval_start = start (timeline ! it);
          interval_end = end_t (timeline ! it);
          empty_before = (start_time > interval_start);
          empty_after = (start_time + duration t - 1 < interval_end);
          tl1 = timeline[it := \<lparr>start = start_time, end_t = start_time + duration t - 1,
                                task = Some r\<rparr>];
          tl2 = (if empty_before
                 then insert_before tl1 it (interval_empty interval_start (start_time - 1))
                 else tl1);
          it2 = (if empty_before then Suc it else it);
          tl3 = (if empty_after
                 then insert_after tl2 it2 (interval_empty (start_time + duration t) interval_end)
                 else tl2)
      in (tl3,
          parent\<lparr>sequence := (sequence parent)[snd r := t\<lparr>scheduled_time := start_time\<rparr>],
                 last_scheduled_time := start_time + duration t\<rparr>))"

text \<open>The \<open>while\<close> loop of \<open>add_task\<close>: \<open>++time\<close> until the interval is free and fits.\<close>

function advance :: "timeline \<Rightarrow> pointer \<Rightarrow> time32_t \<Rightarrow> time32_t \<Rightarrow> fault + pointer" where
  "advance timeline time job_end d =
     (if length timeline \<le> time then Inl Past_The_End
      else if occupied (timeline ! time) \<or> \<not> includes_from (timeline ! time) job_end d
      then advance timeline (Suc time) job_end d
      else Inr time)"
  by pat_completeness auto
termination
  by (relation "measure (\<lambda>(timeline, time, job_end, d). length timeline - time)") auto

declare advance.simps [simp del]

text \<open>
  \<open>add_task\<close>, for the task at \<open>data.jobs[j].sequence[i]\<close>. The first three tests are the
  range of the caller's \<open>job->sequence[i]\<close> and of \<open>table[task.machine_id]\<close>.
\<close>

definition add_task :: "task_ref \<Rightarrow> schedule \<Rightarrow> fault + schedule" where
  "add_task r s =
     (let js = jobs (data s) in
      if length js \<le> fst r then Inl Out_Of_Range
      else let parent = js ! fst r in
      if length (sequence parent) \<le> snd r then Inl Out_Of_Range
      else let t = sequence parent ! snd r in
      if machine_id t < 0 \<or> length (table s) \<le> nat (machine_id t) then Inl Out_Of_Range
      else let m = nat (machine_id t);
               timeline = table s ! m;
               job_end = last_scheduled_time parent
      in case advance timeline (interval_at timeline job_end) job_end (duration t) of
           Inl e \<Rightarrow> Inl e
         | Inr time \<Rightarrow>
             (case schedule_task r parent timeline time (max (start (timeline ! time)) job_end) of
                (timeline', parent') \<Rightarrow>
                  Inr (s\<lparr>table := (table s)[m := timeline'],
                         data := (data s)\<lparr>jobs := js[fst r := parent']\<rparr>\<rparr>)))"

text \<open>The constructor: one timeline per machine, each the single free interval.\<close>

definition schedule_init :: "dataset \<Rightarrow> schedule" where
  "schedule_init d =
     \<lparr>table = map (\<lambda>timeline. add timeline (interval_empty 0 infinity))
                 (replicate (machine_count d) []),
      data = d\<rparr>"

subsection \<open>The dispatch loop\<close>

text \<open>
  \<open>std::sort\<close> with a comparator. The comparator has to be a strict weak ordering of the
  elements: irreflexive, transitive, and with a transitive "neither is less"
  (\<open>strict_weak\<close>); otherwise the call is undefined. The standard leaves the order of
  equivalent elements open. The model keeps them in their given order, which is what
  the insertion sort gives that \<open>std::sort\<close> of libstdc++ runs on a range of at most 16
  elements: \<open>insert_by\<close> puts an element in front of the first one that is not less than
  it, and the elements are inserted from the last to the first. Where the comparator
  tells all elements apart the result is the only sorted one.
\<close>

definition strict_weak :: "('a \<Rightarrow> 'a \<Rightarrow> bool) \<Rightarrow> 'a list \<Rightarrow> bool" where
  "strict_weak cmp xs =
     (list_all (\<lambda>x. \<not> cmp x x) xs
      \<and> list_all (\<lambda>x. list_all (\<lambda>y. list_all (\<lambda>z.
            (if cmp x y \<and> cmp y z then cmp x z else True)
            \<and> (if \<not> cmp x y \<and> \<not> cmp y x \<and> \<not> cmp y z \<and> \<not> cmp z y
                then \<not> cmp x z \<and> \<not> cmp z x else True)) xs) xs) xs)"

fun insert_by :: "('a \<Rightarrow> 'a \<Rightarrow> bool) \<Rightarrow> 'a \<Rightarrow> 'a list \<Rightarrow> 'a list" where
  "insert_by cmp x [] = [x]"
| "insert_by cmp x (y # ys) = (if cmp y x then y # insert_by cmp x ys else x # y # ys)"

definition std_sort :: "('a \<Rightarrow> 'a \<Rightarrow> bool) \<Rightarrow> 'a list \<Rightarrow> fault + 'a list" where
  "std_sort cmp xs =
     (if strict_weak cmp xs then Inr (foldr (insert_by cmp) xs []) else Inl Unordered)"

text \<open>
  \<open>js::heuristic\<close> is called as \<open>heuristic(a, b, i)\<close> on two job pointers and the stage.
\<close>

type_synonym heuristic = "job \<Rightarrow> job \<Rightarrow> time32_t \<Rightarrow> bool"

text \<open>The inner loop: \<open>for (job* job : jobs_order) add_task(job->sequence[i])\<close>.\<close>

fun add_tasks :: "nat \<Rightarrow> nat list \<Rightarrow> schedule \<Rightarrow> fault + schedule" where
  "add_tasks i [] s = Inr s"
| "add_tasks i (j # jobs_order) s =
     (case add_task (j, i) s of Inl e \<Rightarrow> Inl e | Inr s' \<Rightarrow> add_tasks i jobs_order s')"

text \<open>
  The outer loop, over the stages still to run. \<open>jobs_order\<close> holds the addresses of
  \<open>data.jobs[0]\<close>, \<open>data.jobs[1]\<close>, ... (the positions), sorted by the heuristic on the jobs as
  they are when the stage begins.
\<close>

fun stages :: "heuristic \<Rightarrow> nat list \<Rightarrow> schedule \<Rightarrow> fault + schedule" where
  "stages h [] s = Inr s"
| "stages h (i # is) s =
     (let js = jobs (data s)
      in case std_sort (\<lambda>a b. h (js ! a) (js ! b) (of_nat i)) [0..<length js] of
           Inl e \<Rightarrow> Inl e
         | Inr jobs_order \<Rightarrow>
             (case add_tasks i jobs_order s of Inl e \<Rightarrow> Inl e | Inr s' \<Rightarrow> stages h is s'))"

text \<open>
  \<open>sequence_length\<close> is the size of the first job's sequence, converted to \<open>time32_t\<close>.
\<close>

definition sequence_length :: "schedule \<Rightarrow> nat" where
  "sequence_length s = unat (of_nat (length (sequence (jobs (data s) ! 0))) :: time32_t)"

text \<open>
  The last line of \<open>schedule_jobs\<close> sorts \<open>data.jobs\<close> by id. A job that moves takes its
  \<open>sequence\<close> along (a \<open>std::vector\<close>, whose elements stay where they are when the vector
  is moved), so a \<open>task*\<close> in a timeline still points at the same task, which is now found
  at the job's new position. The model sorts the jobs together with the positions they
  come from (\<open>enumerate\<close>), and rewrites every pair \<open>(j, i)\<close> in the table to the position
  where the job from \<open>j\<close> has gone (\<open>position\<close>: the first place of \<open>j\<close> in the sorted list of
  old positions).
\<close>

definition position :: "nat \<Rightarrow> nat list \<Rightarrow> nat" where
  "position j order = length (takeWhile (\<lambda>x. x \<noteq> j) order)"

definition moved_with :: "nat list \<Rightarrow> interval \<Rightarrow> interval" where
  "moved_with order iv =
     iv\<lparr>task := map_option (\<lambda>r. (position (fst r) order, snd r)) (task iv)\<rparr>"

definition schedule_jobs :: "heuristic \<Rightarrow> schedule \<Rightarrow> fault + schedule" where
  "schedule_jobs h s =
     (if jobs (data s) = [] then Inl Out_Of_Range
      else case stages h [0..<sequence_length s] s of
             Inl e \<Rightarrow> Inl e
           | Inr s' \<Rightarrow>
               (case std_sort (\<lambda>a b. job_id (snd a) < job_id (snd b))
                       (enumerate 0 (jobs (data s'))) of
                  Inl e \<Rightarrow> Inl e
                | Inr sorted_jobs \<Rightarrow>
                    Inr (s'\<lparr>table := map (map (moved_with (map fst sorted_jobs))) (table s'),
                           data := (data s')\<lparr>jobs := map snd sorted_jobs\<rparr>\<rparr>)))"

text \<open>
  The heuristic of \<open>stachu_algorithm\<close>: the longer operation at this stage goes first.
\<close>

definition longest_first :: heuristic where
  "longest_first a b i = (duration (sequence a ! unat i) > duration (sequence b ! unat i))"

subsection \<open>Reading the result\<close>

text \<open>
  \<open>std::max_element\<close> keeps the first largest element, comparing with \<open>operator<\<close>; on an
  empty range it returns \<open>end()\<close>, which \<open>longest_timeline\<close> dereferences.
\<close>

fun max_element :: "timeline \<Rightarrow> timeline list \<Rightarrow> fault + timeline" where
  "max_element largest [] = Inr largest"
| "max_element largest (t # ts) =
     (case timeline_less largest t of
        Inl e \<Rightarrow> Inl e
      | Inr b \<Rightarrow> max_element (if b then t else largest) ts)"

definition longest_timeline :: "schedule \<Rightarrow> fault + time32_t" where
  "longest_timeline s =
     (case table s of
        [] \<Rightarrow> Inl Past_The_End
      | t # ts \<Rightarrow> (case max_element t ts of Inl e \<Rightarrow> Inl e | Inr largest \<Rightarrow> length_tl largest))"

text \<open>\<open>operator<<\<close> on an unsigned integer writes its decimal digits.\<close>

function decimal :: "nat \<Rightarrow> string" where
  "decimal n = (if n < 10 then [''0123456789'' ! n]
                else decimal (n div 10) @ [''0123456789'' ! (n mod 10)])"
  by pat_completeness auto
termination
  by (relation "measure id") auto

declare decimal.simps [simp del]

definition job_line :: "job \<Rightarrow> string" where
  "job_line j = concat (map (\<lambda>t. decimal (unat (scheduled_time t)) @ '' '') (sequence j)) @ [CHR 10]"

definition summary :: "schedule \<Rightarrow> fault + string" where
  "summary s =
     (case longest_timeline s of
        Inl e \<Rightarrow> Inl e
      | Inr longest \<Rightarrow>
          Inr (decimal (unat longest) @ [CHR 10] @ concat (map job_line (jobs (data s)))))"

section \<open>Properties\<close>

subsection \<open>Vocabulary\<close>

text \<open>
  The timeline invariant, as a check that runs along the list. \<open>seg t ivs u\<close>: the intervals
  \<open>ivs\<close> are non-empty ranges below \<open>infinity\<close>, each starting one past the end of the one
  before, the first at \<open>t\<close>, and the next range would start at \<open>u\<close>. \<open>tiles t ivs\<close>: the same,
  and the last interval is free and ends at \<open>infinity\<close>.
\<close>

fun seg :: "time32_t \<Rightarrow> timeline \<Rightarrow> time32_t \<Rightarrow> bool" where
  "seg t [] u = (t = u)"
| "seg t (i # r) u = (start i = t \<and> start i \<le> end_t i \<and> end_t i < infinity \<and> seg (end_t i + 1) r u)"

fun tiles :: "time32_t \<Rightarrow> timeline \<Rightarrow> bool" where
  "tiles t [] = False"
| "tiles t [i] = (start i = t \<and> \<not> occupied i \<and> end_t i = infinity)"
| "tiles t (i # j # r) =
     (start i = t \<and> start i \<le> end_t i \<and> end_t i < infinity \<and> tiles (end_t i + 1) (j # r))"

definition timeline_inv :: "timeline \<Rightarrow> bool" where
  "timeline_inv ivs = tiles 0 ivs"

text \<open>
  What \<open>schedule_task\<close> leaves in place of the chosen interval \<open>c\<close>: the free prefix if
  there is one, the block of the task, the free suffix if there is one.
\<close>

definition placed_block :: "interval \<Rightarrow> task_ref \<Rightarrow> time32_t \<Rightarrow> time32_t \<Rightarrow> interval list" where
  "placed_block c r st d =
     (if start c < st then [interval_empty (start c) (st - 1)] else [])
     @ \<lparr>start = st, end_t = st + d - 1, task = Some r\<rparr>
     # (if st + d - 1 < end_t c then [interval_empty (st + d) (end_t c)] else [])"

text \<open>The task behind a reference, its job, the job's cursor, and its machine's timeline.\<close>

definition parent_at :: "schedule \<Rightarrow> task_ref \<Rightarrow> job" where
  "parent_at s r = jobs (data s) ! fst r"

definition task_at :: "schedule \<Rightarrow> task_ref \<Rightarrow> task" where
  "task_at s r = sequence (parent_at s r) ! snd r"

definition cursor :: "schedule \<Rightarrow> task_ref \<Rightarrow> time32_t" where
  "cursor s r = last_scheduled_time (parent_at s r)"

definition machine_of :: "schedule \<Rightarrow> task_ref \<Rightarrow> nat" where
  "machine_of s r = nat (machine_id (task_at s r))"

definition timeline_of :: "schedule \<Rightarrow> task_ref \<Rightarrow> timeline" where
  "timeline_of s r = table s ! machine_of s r"

definition valid_ref :: "schedule \<Rightarrow> task_ref \<Rightarrow> bool" where
  "valid_ref s r =
     (fst r < length (jobs (data s)) \<and> snd r < length (sequence (parent_at s r))
      \<and> 0 \<le> machine_id (task_at s r) \<and> machine_of s r < length (table s))"

text \<open>The scenario of the specification: two jobs on two machines.\<close>

definition scenario :: dataset where
  "scenario =
     \<lparr>machine_count = 2,
      jobs = [\<lparr>job_id = 0,
               sequence = [\<lparr>machine_id = 0, duration = 3, scheduled_time = 0\<rparr>,
                           \<lparr>machine_id = 1, duration = 2, scheduled_time = 0\<rparr>],
               last_scheduled_time = 0\<rparr>,
              \<lparr>job_id = 1,
               sequence = [\<lparr>machine_id = 0, duration = 2, scheduled_time = 0\<rparr>,
                           \<lparr>machine_id = 1, duration = 4, scheduled_time = 0\<rparr>],
               last_scheduled_time = 0\<rparr>]\<rparr>"

text \<open>The scenario after the first placement, of job 0's first task.\<close>

definition scenario_first :: schedule where
  "scenario_first =
     \<lparr>table = [[\<lparr>start = 0, end_t = 2, task = Some (0, 0)\<rparr>,
                \<lparr>start = 3, end_t = 4294967295, task = None\<rparr>],
               [\<lparr>start = 0, end_t = 4294967295, task = None\<rparr>]],
      data = \<lparr>machine_count = 2,
              jobs = [\<lparr>job_id = 0,
                       sequence = [\<lparr>machine_id = 0, duration = 3, scheduled_time = 0\<rparr>,
                                   \<lparr>machine_id = 1, duration = 2, scheduled_time = 0\<rparr>],
                       last_scheduled_time = 3\<rparr>,
                      \<lparr>job_id = 1,
                       sequence = [\<lparr>machine_id = 0, duration = 2, scheduled_time = 0\<rparr>,
                                   \<lparr>machine_id = 1, duration = 4, scheduled_time = 0\<rparr>],
                       last_scheduled_time = 0\<rparr>]\<rparr>\<rparr>"

text \<open>
  One machine and two jobs of one task each; the first task lasts \<open>2^32 - 1\<close> units, the
  second 2. \<open>wrap_first\<close> and \<open>wrap_second\<close> are the states after the first and after the
  second placement.
\<close>

definition wrap_data :: dataset where
  "wrap_data =
     \<lparr>machine_count = 1,
      jobs = [\<lparr>job_id = 0,
               sequence = [\<lparr>machine_id = 0, duration = 4294967295, scheduled_time = 0\<rparr>],
               last_scheduled_time = 0\<rparr>,
              \<lparr>job_id = 1,
               sequence = [\<lparr>machine_id = 0, duration = 2, scheduled_time = 0\<rparr>],
               last_scheduled_time = 0\<rparr>]\<rparr>"

definition wrap_first :: schedule where
  "wrap_first =
     \<lparr>table = [[\<lparr>start = 0, end_t = 4294967294, task = Some (0, 0)\<rparr>,
                \<lparr>start = 4294967295, end_t = 4294967295, task = None\<rparr>]],
      data = \<lparr>machine_count = 1,
              jobs = [\<lparr>job_id = 0,
                       sequence = [\<lparr>machine_id = 0, duration = 4294967295,
                                    scheduled_time = 0\<rparr>],
                       last_scheduled_time = 4294967295\<rparr>,
                      \<lparr>job_id = 1,
                       sequence = [\<lparr>machine_id = 0, duration = 2, scheduled_time = 0\<rparr>],
                       last_scheduled_time = 0\<rparr>]\<rparr>\<rparr>"

definition wrap_second :: schedule where
  "wrap_second =
     \<lparr>table = [[\<lparr>start = 0, end_t = 4294967294, task = Some (0, 0)\<rparr>,
                \<lparr>start = 4294967295, end_t = 0, task = Some (1, 0)\<rparr>,
                \<lparr>start = 1, end_t = 4294967295, task = None\<rparr>]],
      data = \<lparr>machine_count = 1,
              jobs = [\<lparr>job_id = 0,
                       sequence = [\<lparr>machine_id = 0, duration = 4294967295,
                                    scheduled_time = 0\<rparr>],
                       last_scheduled_time = 4294967295\<rparr>,
                      \<lparr>job_id = 1,
                       sequence = [\<lparr>machine_id = 0, duration = 2,
                                    scheduled_time = 4294967295\<rparr>],
                       last_scheduled_time = 1\<rparr>]\<rparr>\<rparr>"

text \<open>
  Reading a decimal numeral back: the value of a digit is its place in \<open>0123456789\<close>.
\<close>

definition digit_value :: "char \<Rightarrow> nat" where
  "digit_value c = length (takeWhile (\<lambda>x. x \<noteq> c) ''0123456789'')"

definition digits_value :: "string \<Rightarrow> nat" where
  "digits_value cs = foldl (\<lambda>a c. 10 * a + digit_value c) 0 cs"


definition scenario_swapped_final :: schedule where
  "scenario_swapped_final =
     \<lparr>table = [[\<lparr>start = 0, end_t = 2, task = Some (0, 0)\<rparr>,
                \<lparr>start = 3, end_t = 4, task = Some (1, 0)\<rparr>,
                \<lparr>start = 5, end_t = 4294967295, task = None\<rparr>],
               [\<lparr>start = 0, end_t = 2, task = None\<rparr>,
                \<lparr>start = 3, end_t = 4, task = Some (0, 1)\<rparr>,
                \<lparr>start = 5, end_t = 8, task = Some (1, 1)\<rparr>,
                \<lparr>start = 9, end_t = 4294967295, task = None\<rparr>]],
      data = \<lparr>machine_count = 2,
              jobs = [\<lparr>job_id = 0,
                       sequence = [\<lparr>machine_id = 0, duration = 3, scheduled_time = 0\<rparr>,
                                   \<lparr>machine_id = 1, duration = 2, scheduled_time = 3\<rparr>],
                       last_scheduled_time = 5\<rparr>,
                      \<lparr>job_id = 1,
                       sequence = [\<lparr>machine_id = 0, duration = 2, scheduled_time = 3\<rparr>,
                                   \<lparr>machine_id = 1, duration = 4, scheduled_time = 5\<rparr>],
                       last_scheduled_time = 9\<rparr>]\<rparr>\<rparr>"


text \<open>
  \<open>placed s r\<close>: some interval of some timeline is bound to the task \<open>r\<close>. \<open>block_ok\<close>: an
  occupied interval of machine \<open>m\<close> is bound to a task of that machine, starts at the task's
  start time and ends \<open>duration - 1\<close> later, without wrapping around. \<open>consistent\<close>: every
  timeline satisfies the invariant and every interval is \<open>block_ok\<close>. \<open>disjoint_spans\<close>: the
  time ranges \<open>[start, start + duration - 1]\<close> of two tasks, read as natural numbers, do
  not intersect.
\<close>

definition placed :: "schedule \<Rightarrow> task_ref \<Rightarrow> bool" where
  "placed s r = (\<exists>ivs \<in> set (table s). \<exists>iv \<in> set ivs. task iv = Some r)"

definition block_ok :: "schedule \<Rightarrow> nat \<Rightarrow> interval \<Rightarrow> bool" where
  "block_ok s m iv =
     (case task iv of
        None \<Rightarrow> True
      | Some r \<Rightarrow>
          valid_ref s r \<and> machine_of s r = m
          \<and> start iv = scheduled_time (task_at s r)
          \<and> unat (end_t iv) + 1 = unat (start iv) + unat (duration (task_at s r)))"

definition consistent :: "schedule \<Rightarrow> bool" where
  "consistent s =
     ((\<forall>ivs \<in> set (table s). timeline_inv ivs)
      \<and> (\<forall>m \<in> set [0..<length (table s)]. \<forall>iv \<in> set (table s ! m). block_ok s m iv))"

definition disjoint_spans :: "task \<Rightarrow> task \<Rightarrow> bool" where
  "disjoint_spans a b =
     (unat (scheduled_time a) + unat (duration a) \<le> unat (scheduled_time b)
      \<or> unat (scheduled_time b) + unat (duration b) \<le> unat (scheduled_time a))"

text \<open>The scenario after its second placement (job 1's first task) and after the run.\<close>

definition scenario_second :: schedule where
  "scenario_second =
     \<lparr>table = [[\<lparr>start = 0, end_t = 2, task = Some (0, 0)\<rparr>,
                \<lparr>start = 3, end_t = 4, task = Some (1, 0)\<rparr>,
                \<lparr>start = 5, end_t = 4294967295, task = None\<rparr>],
               [\<lparr>start = 0, end_t = 4294967295, task = None\<rparr>]],
      data = \<lparr>machine_count = 2,
              jobs = [\<lparr>job_id = 0,
                       sequence = [\<lparr>machine_id = 0, duration = 3, scheduled_time = 0\<rparr>,
                                   \<lparr>machine_id = 1, duration = 2, scheduled_time = 0\<rparr>],
                       last_scheduled_time = 3\<rparr>,
                      \<lparr>job_id = 1,
                       sequence = [\<lparr>machine_id = 0, duration = 2, scheduled_time = 3\<rparr>,
                                   \<lparr>machine_id = 1, duration = 4, scheduled_time = 0\<rparr>],
                       last_scheduled_time = 5\<rparr>]\<rparr>\<rparr>"


text \<open>
  One machine, three jobs of one task each, lasting \<open>2^31 + 5\<close>, \<open>2^31\<close> and 3 units, and
  the state \<open>schedule_jobs\<close> returns for them with the longest-first heuristic.
\<close>

definition overlap_data :: dataset where
  "overlap_data =
     \<lparr>machine_count = 1,
      jobs = [\<lparr>job_id = 0,
               sequence = [\<lparr>machine_id = 0, duration = 2147483653, scheduled_time = 0\<rparr>],
               last_scheduled_time = 0\<rparr>,
              \<lparr>job_id = 1,
               sequence = [\<lparr>machine_id = 0, duration = 2147483648, scheduled_time = 0\<rparr>],
               last_scheduled_time = 0\<rparr>,
              \<lparr>job_id = 2,
               sequence = [\<lparr>machine_id = 0, duration = 3, scheduled_time = 0\<rparr>],
               last_scheduled_time = 0\<rparr>]\<rparr>"

definition overlap_final :: schedule where
  "overlap_final =
     \<lparr>table = [[\<lparr>start = 0, end_t = 2147483652, task = Some (0, 0)\<rparr>,
                \<lparr>start = 2147483653, end_t = 4, task = Some (1, 0)\<rparr>,
                \<lparr>start = 5, end_t = 7, task = Some (2, 0)\<rparr>,
                \<lparr>start = 8, end_t = 4294967295, task = None\<rparr>]],
      data = \<lparr>machine_count = 1,
              jobs = [\<lparr>job_id = 0,
                       sequence = [\<lparr>machine_id = 0, duration = 2147483653,
                                    scheduled_time = 0\<rparr>],
                       last_scheduled_time = 2147483653\<rparr>,
                      \<lparr>job_id = 1,
                       sequence = [\<lparr>machine_id = 0, duration = 2147483648,
                                    scheduled_time = 2147483653\<rparr>],
                       last_scheduled_time = 5\<rparr>,
                      \<lparr>job_id = 2,
                       sequence = [\<lparr>machine_id = 0, duration = 3, scheduled_time = 5\<rparr>],
                       last_scheduled_time = 8\<rparr>]\<rparr>\<rparr>"



text \<open>
  One machine and three jobs of one task each, lasting 1, \<open>2^32 - 1\<close> and 1 units, and the
  state after the first two placements: the second block ends at \<open>infinity\<close>, so no free
  interval is left.
\<close>

definition full_data :: dataset where
  "full_data =
     \<lparr>machine_count = 1,
      jobs = [\<lparr>job_id = 0,
               sequence = [\<lparr>machine_id = 0, duration = 1, scheduled_time = 0\<rparr>],
               last_scheduled_time = 0\<rparr>,
              \<lparr>job_id = 1,
               sequence = [\<lparr>machine_id = 0, duration = 4294967295, scheduled_time = 0\<rparr>],
               last_scheduled_time = 0\<rparr>,
              \<lparr>job_id = 2,
               sequence = [\<lparr>machine_id = 0, duration = 1, scheduled_time = 0\<rparr>],
               last_scheduled_time = 0\<rparr>]\<rparr>"

definition full_state :: schedule where
  "full_state =
     \<lparr>table = [[\<lparr>start = 0, end_t = 0, task = Some (0, 0)\<rparr>,
                \<lparr>start = 1, end_t = 4294967295, task = Some (1, 0)\<rparr>]],
      data = \<lparr>machine_count = 1,
              jobs = [\<lparr>job_id = 0,
                       sequence = [\<lparr>machine_id = 0, duration = 1, scheduled_time = 0\<rparr>],
                       last_scheduled_time = 1\<rparr>,
                      \<lparr>job_id = 1,
                       sequence = [\<lparr>machine_id = 0, duration = 4294967295,
                                    scheduled_time = 1\<rparr>],
                       last_scheduled_time = 0\<rparr>,
                      \<lparr>job_id = 2,
                       sequence = [\<lparr>machine_id = 0, duration = 1, scheduled_time = 0\<rparr>],
                       last_scheduled_time = 0\<rparr>]\<rparr>\<rparr>"

subsection \<open>Arithmetic on 32-bit times\<close>

lemma unat_infinity: "unat infinity = 4294967295"
  by (simp add: infinity_def unsigned_minus_1_eq_mask mask_eq_exp_minus_1)

lemma le_infinity [simp]: "x \<le> infinity"
  by (simp add: infinity_def)

lemma lt_infinity_iff: "x < infinity \<longleftrightarrow> unat x < 4294967295"
  by (simp add: word_less_nat_alt unat_infinity)

lemma unat_bound32: "unat (a :: time32_t) < 4294967296"
  using unsigned_less [of a, where 'a = nat] by simp

lemma unat_add32:
  "unat a + unat b < 4294967296 \<Longrightarrow> unat (a + b) = unat a + unat (b :: time32_t)"
  using unat_add_lem [of a b] by simp

lemma unat_pred32: "0 < unat a \<Longrightarrow> unat (a - 1) = unat (a :: time32_t) - 1"
  by (rule unat_minus_one) (auto simp: unat_eq_0)

lemma unat_max32: "unat (max a b) = max (unat a) (unat (b :: time32_t))"
  by (simp add: max_def word_le_nat_alt)

lemma unat_block_end:
  assumes "unat st + unat d \<le> 4294967295" "0 < unat (d :: time32_t)"
  shows "unat (st + d - 1) = unat st + unat d - 1"
proof -
  have "unat (st + d) = unat st + unat d" using assms by (simp add: unat_add32)
  then show ?thesis using assms by (simp add: unat_pred32)
qed

lemma lt_infinity_succ: "x < infinity \<Longrightarrow> unat (x + 1) = Suc (unat x)"
  by (simp add: lt_infinity_iff unat_add32)

lemma seg_append: "seg t (xs @ ys) u \<longleftrightarrow> (\<exists>m. seg t xs m \<and> seg m ys u)"
  by (induction xs arbitrary: t) auto

lemma tiles_Cons: "tiles t (i # r) \<longleftrightarrow>
   start i = t \<and> (if r = [] then \<not> occupied i \<and> end_t i = infinity
                  else start i \<le> end_t i \<and> end_t i < infinity \<and> tiles (end_t i + 1) r)"
  by (cases r) auto

lemma tiles_append: "ys \<noteq> [] \<Longrightarrow> tiles t (xs @ ys) \<longleftrightarrow> (\<exists>m. seg t xs m \<and> tiles m ys)"
  by (induction xs arbitrary: t) (auto simp: tiles_Cons)

lemma seg_le: "seg t xs u \<Longrightarrow> t \<le> u"
proof (induction xs arbitrary: t)
  case Nil then show ?case by simp
next
  case (Cons i r)
  then have a: "start i = t" "start i \<le> end_t i" "end_t i < infinity" "end_t i + 1 \<le> u" by auto
  from a(3) have "unat (end_t i + 1) = Suc (unat (end_t i))" by (rule lt_infinity_succ)
  with a show ?case by (simp add: word_le_nat_alt)
qed

lemma tiles_start_le: "tiles t ivs \<Longrightarrow> t \<le> start (last ivs)"
proof (induction t ivs rule: tiles.induct)
  case (3 t i j r)
  then have a: "start i = t" "start i \<le> end_t i" "end_t i < infinity" "end_t i + 1 \<le> start (last (j # r))" by auto
  from a(3) have "unat (end_t i + 1) = Suc (unat (end_t i))" by (rule lt_infinity_succ)
  with a show ?case by (simp add: word_le_nat_alt)
qed auto

lemma interval_empty_sel [simp]:
  "start (interval_empty s e) = s" "end_t (interval_empty s e) = e"
  "task (interval_empty s e) = None" "\<not> occupied (interval_empty s e)"
  by (simp_all add: interval_empty_def occupied_def)

lemma schedule_task_timeline:
  assumes "it < length ivs"
  shows "fst (schedule_task r parent ivs it st) =
           take it ivs @ placed_block (ivs ! it) r st (duration (sequence parent ! snd r))
           @ drop (Suc it) ivs"
  using assms
  by (simp add: schedule_task_def Let_def insert_before_def insert_after_def placed_block_def
        take_update_cancel drop_update_cancel drop_update_swap upd_conv_take_nth_drop)

lemma tiles_block:
  assumes t: "tiles m (c # rest)" and free: "\<not> occupied c"
    and ge: "unat (start c) \<le> unat st" and pos: "0 < unat d"
    and sum: "unat st + unat d \<le> 4294967295"
    and fit: "unat st + unat d - 1 \<le> unat (end_t c)"
  shows "tiles m (placed_block c r st d @ rest)"
proof -
  let ?occ = "\<lparr>start = st, end_t = st + d - 1, task = Some r\<rparr>"
  have m: "start c = m" using t by (simp add: tiles_Cons)
  have e1: "unat (st + d - 1) = unat st + unat d - 1" using sum pos by (rule unat_block_end)
  have e2: "unat (st + d) = unat st + unat d" using sum by (simp add: unat_add32)
  have w3: "st \<le> st + d - 1" using e1 pos by (simp add: word_le_nat_alt)
  have w6: "st + d - 1 + 1 = st + d" by simp
  have w8: "st + d - 1 < infinity" using e1 sum pos by (simp add: lt_infinity_iff)
  \<comment> \<open>the block and what follows it\<close>
  have after: "tiles st (?occ # (if st + d - 1 < end_t c then [interval_empty (st + d) (end_t c)] else []) @ rest)"
  proof (cases "st + d - 1 < end_t c")
    case True
    then have w4: "st + d \<le> end_t c" using e1 e2 pos by (simp add: word_le_nat_alt word_less_nat_alt)
    have "tiles (st + d) (interval_empty (st + d) (end_t c) # rest)"
      using t w4 by (auto simp: tiles_Cons)
    then show ?thesis using True w3 w8 w6 by (simp add: tiles_Cons)
  next
    case False
    then have "unat (st + d - 1) = unat (end_t c)" using fit e1 by (simp add: word_less_nat_alt)
    then have w5: "st + d - 1 = end_t c" by (simp add: word_unat_eq_iff)
    have ne: "rest \<noteq> []" using t w5 w8 by (auto simp: tiles_Cons)
    then have "tiles (st + d) rest" using t w5 w6 by (simp add: tiles_Cons)
    then show ?thesis using False w3 w8 w6 ne by (simp add: tiles_Cons)
  qed
  show ?thesis
  proof (cases "start c < st")
    case True
    then have p: "unat (st - 1) = unat st - 1" by (simp add: unat_pred32 word_less_nat_alt)
    have w1: "start c \<le> st - 1" using True p by (simp add: word_le_nat_alt word_less_nat_alt)
    have w2: "st - 1 < infinity" using p sum pos by (simp add: lt_infinity_iff)
    show ?thesis
      using after m w1 w2 True
      by (simp add: placed_block_def tiles_Cons [of _ "interval_empty (start c) (st - 1)"])
  next
    case False
    then have "unat st = unat (start c)" using ge by (simp add: word_less_nat_alt)
    then have "st = start c" by (simp add: word_unat_eq_iff)
    with m have ms: "m = st" by simp
    have pb: "placed_block c r st d = ?occ
        # (if st + d - 1 < end_t c then [interval_empty (st + d) (end_t c)] else [])"
      using False by (simp add: placed_block_def)
    show ?thesis unfolding pb ms using after by simp
  qed
qed

lemma tiles_split_head:
  assumes t: "tiles m (c # rest)" and free: "\<not> occupied c"
    and fit: "includes_from c e d" and pos: "0 < unat d"
    and room: "unat (max (start (last (c # rest))) e) + unat d \<le> 4294967295"
  shows "tiles m (placed_block c r (max (start c) e) d @ rest)"
proof -
  define st where "st = max (start c) e"
  have m: "start c = m" using t by (simp add: tiles_Cons)
  have "start c \<le> start (last (c # rest))" using tiles_start_le [OF t] m by simp
  then have le: "unat st \<le> unat (max (start (last (c # rest))) e)"
    by (simp add: st_def unat_max32 word_le_nat_alt)
  have sum: "unat st + unat d \<le> 4294967295" using le room by simp
  have e1: "unat (st + d - 1) = unat st + unat d - 1" using sum pos by (rule unat_block_end)
  have ge: "unat (start c) \<le> unat st" by (simp add: st_def unat_max32)
  have fit': "unat st + unat d - 1 \<le> unat (end_t c)"
    using fit e1 by (simp add: includes_from_def st_def word_le_nat_alt)
  show ?thesis
    using tiles_block [OF t free ge pos sum fit'] by (simp add: st_def)
qed

subsection \<open>Finding the interval\<close>

lemma interval_at_le: "interval_at ivs t \<le> length ivs"
  by (induction ivs) auto

lemma interval_at_found:
  "interval_at ivs t < length ivs \<Longrightarrow> includes_time (ivs ! interval_at ivs t) t"
  by (induction ivs) (auto split: if_splits)

lemma interval_at_first:
  "k < interval_at ivs t \<Longrightarrow> \<not> includes_time (ivs ! k) t"
proof (induction ivs arbitrary: k)
  case Nil then show ?case by simp
next
  case (Cons i r) then show ?case by (cases k) (auto split: if_splits)
qed

lemma tiles_interval_at: "tiles m ivs \<Longrightarrow> m \<le> t \<Longrightarrow> interval_at ivs t < length ivs"
proof (induction m ivs rule: tiles.induct)
  case (1 t) then show ?case by simp
next
  case (2 m i) then show ?case by (simp add: includes_time_def)
next
  case (3 m i j r)
  show ?case
  proof (cases "includes_time i t")
    case True then show ?thesis by simp
  next
    case False
    with 3 have "end_t i < t" by (auto simp: includes_time_def)
    moreover have "unat (end_t i + 1) = Suc (unat (end_t i))"
      using 3 by (simp add: lt_infinity_succ)
    ultimately have "end_t i + 1 \<le> t" by (simp add: word_le_nat_alt word_less_nat_alt)
    with 3 False show ?thesis by simp
  qed
qed

lemma advance_Inr:
  "advance ivs k e d = Inr k' \<Longrightarrow>
     k \<le> k' \<and> k' < length ivs \<and> \<not> occupied (ivs ! k') \<and> includes_from (ivs ! k') e d
     \<and> (\<forall>n. k \<le> n \<and> n < k' \<longrightarrow> occupied (ivs ! n) \<or> \<not> includes_from (ivs ! n) e d)"
proof (induction ivs k e d rule: advance.induct)
  case (1 ivs k e d)
  show ?case
  proof (cases "occupied (ivs ! k) \<or> \<not> includes_from (ivs ! k) e d")
    case True
    with 1 have len: "k < length ivs" and rec: "advance ivs (Suc k) e d = Inr k'"
      by (auto simp: advance.simps [of ivs k] split: if_splits)
    from 1(1) [OF _ True rec] len
    have ih: "Suc k \<le> k'" "k' < length ivs" "\<not> occupied (ivs ! k')" "includes_from (ivs ! k') e d"
      "\<forall>n. Suc k \<le> n \<and> n < k' \<longrightarrow> occupied (ivs ! n) \<or> \<not> includes_from (ivs ! n) e d"
      by auto
    have "\<forall>n. k \<le> n \<and> n < k' \<longrightarrow> occupied (ivs ! n) \<or> \<not> includes_from (ivs ! n) e d"
    proof (intro allI impI)
      fix n assume "k \<le> n \<and> n < k'"
      then consider "n = k" | "Suc k \<le> n \<and> n < k'" by linarith
      then show "occupied (ivs ! n) \<or> \<not> includes_from (ivs ! n) e d"
        using True ih(5) by cases auto
    qed
    with ih show ?thesis by simp
  next
    case False
    with 1(2) show ?thesis by (auto simp: advance.simps [of ivs k] split: if_splits)
  qed
qed

lemma advance_finds:
  "k \<le> n \<Longrightarrow> n < length ivs \<Longrightarrow> \<not> occupied (ivs ! n) \<Longrightarrow> includes_from (ivs ! n) e d
     \<Longrightarrow> \<exists>k'. advance ivs k e d = Inr k'"
proof (induction ivs k e d rule: advance.induct)
  case (1 ivs k e d)
  show ?case
  proof (cases "occupied (ivs ! k) \<or> \<not> includes_from (ivs ! k) e d")
    case True
    with 1(2-) have "k \<noteq> n" by auto
    with 1(2) have "Suc k \<le> n" by simp
    from 1(1) [OF _ True this 1(3-)] 1(2,3) obtain k' where "advance ivs (Suc k) e d = Inr k'"
      by auto
    with True 1(2,3) show ?thesis by (simp add: advance.simps [of ivs k])
  next
    case False
    with 1(2,3) show ?thesis by (simp add: advance.simps [of ivs k])
  qed
qed

lemma advance_none:
  "\<forall>n. k \<le> n \<and> n < length ivs \<longrightarrow> occupied (ivs ! n) \<or> \<not> includes_from (ivs ! n) e d
     \<Longrightarrow> advance ivs k e d = Inl Past_The_End"
proof (induction ivs k e d rule: advance.induct)
  case (1 ivs k e d)
  show ?case
  proof (cases "k < length ivs")
    case True
    with 1(2) have here: "occupied (ivs ! k) \<or> \<not> includes_from (ivs ! k) e d" by simp
    have "advance ivs (Suc k) e d = Inl Past_The_End"
      using True here 1(2) by (intro 1(1)) simp_all
    with True here show ?thesis by (simp add: advance.simps [of ivs k])
  next
    case False
    then show ?thesis by (simp add: advance.simps [of ivs k])
  qed
qed

lemma tiles_last: "tiles m ivs \<Longrightarrow> ivs \<noteq> [] \<and> \<not> occupied (last ivs) \<and> end_t (last ivs) = infinity"
  by (induction m ivs rule: tiles.induct) auto

lemma tiles_advance:
  assumes "tiles m ivs" "k < length ivs"
  shows "\<exists>k'. advance ivs k e d = Inr k'"
proof -
  from tiles_last [OF assms(1)]
  have l: "ivs \<noteq> []" "\<not> occupied (last ivs)" "end_t (last ivs) = infinity" by auto
  then have "last ivs = ivs ! (length ivs - 1)" by (simp add: last_conv_nth)
  with l have "\<not> occupied (ivs ! (length ivs - 1))" "includes_from (ivs ! (length ivs - 1)) e d"
    by (simp_all add: includes_from_def)
  with assms(2) show ?thesis by (intro advance_finds [of k "length ivs - 1"]) auto
qed

subsection \<open>What the tiling means\<close>

lemma tiles_bounds: "tiles m ivs \<Longrightarrow> \<forall>b \<in> set ivs. m \<le> start b \<and> start b \<le> end_t b"
proof (induction m ivs rule: tiles.induct)
  case (3 m i j r)
  then have a: "start i = m" "start i \<le> end_t i" "end_t i < infinity"
    and ih: "\<forall>b \<in> set (j # r). end_t i + 1 \<le> start b \<and> start b \<le> end_t b" by auto
  have "unat (end_t i + 1) = Suc (unat (end_t i))" using a(3) by (rule lt_infinity_succ)
  then have "\<forall>b \<in> set (j # r). m \<le> start b \<and> start b \<le> end_t b"
    using ih a by (auto simp: word_le_nat_alt)
  with a show ?case by auto
qed auto

lemma tiles_sorted: "tiles m ivs \<Longrightarrow> sorted_wrt (\<lambda>a b. end_t a < start b) ivs"
proof (induction m ivs rule: tiles.induct)
  case (3 m i j r)
  then have a: "end_t i < infinity" and t: "tiles (end_t i + 1) (j # r)" by auto
  have "unat (end_t i + 1) = Suc (unat (end_t i))" using a by (rule lt_infinity_succ)
  then have "\<forall>b \<in> set (j # r). end_t i < start b"
    using tiles_bounds [OF t] by (auto simp: word_le_nat_alt word_less_nat_alt)
  with 3 show ?case by auto
qed auto

lemma tiles_contiguous:
  "tiles m ivs \<Longrightarrow> Suc k < length ivs \<Longrightarrow> end_t (ivs ! k) + 1 = start (ivs ! Suc k)"
proof (induction m ivs arbitrary: k rule: tiles.induct)
  case (3 m i j r)
  show ?case
  proof (cases k)
    case 0 with 3 show ?thesis by (cases r) auto
  next
    case (Suc n) with 3 show ?thesis by auto
  qed
qed auto

lemma tiles_hd: "tiles m ivs \<Longrightarrow> start (hd ivs) = m"
  by (induction m ivs rule: tiles.induct) auto

lemma tiles_disjoint:
  assumes "tiles m ivs" "k < length ivs" "l < length ivs"
    "includes_time (ivs ! k) t" "includes_time (ivs ! l) t"
  shows "k = l"
proof -
  have s: "sorted_wrt (\<lambda>a b. end_t a < start b) ivs" using assms(1) by (rule tiles_sorted)
  have "\<not> k < l"
  proof
    assume "k < l"
    with s assms have "end_t (ivs ! k) < start (ivs ! l)" by (simp add: sorted_wrt_iff_nth_less)
    with assms(4,5) show False by (auto simp: includes_time_def)
  qed
  moreover have "\<not> l < k"
  proof
    assume "l < k"
    with s assms have "end_t (ivs ! l) < start (ivs ! k)" by (simp add: sorted_wrt_iff_nth_less)
    with assms(4,5) show False by (auto simp: includes_time_def)
  qed
  ultimately show ?thesis by simp
qed

lemma tiles_starts_sorted: "tiles m ivs \<Longrightarrow> sorted_wrt (\<lambda>a b. start a < start b) ivs"
proof -
  assume t: "tiles m ivs"
  have "sorted_wrt (\<lambda>a b. end_t a < start b) ivs" using t by (rule tiles_sorted)
  moreover have "\<forall>a \<in> set ivs. start a \<le> end_t a" using tiles_bounds [OF t] by simp
  ultimately show ?thesis
    by (rule_tac sorted_wrt_mono_rel [of ivs "\<lambda>a b. end_t a < start b"]) auto
qed

subsection \<open>One placement\<close>

lemma add_task_InrE:
  assumes "add_task r s = Inr s'"
  obtains k where
    "valid_ref s r"
    "advance (timeline_of s r) (interval_at (timeline_of s r) (cursor s r)) (cursor s r)
        (duration (task_at s r)) = Inr k"
    "table s' = (table s)[machine_of s r :=
        take k (timeline_of s r)
        @ placed_block (timeline_of s r ! k) r (max (start (timeline_of s r ! k)) (cursor s r))
            (duration (task_at s r))
        @ drop (Suc k) (timeline_of s r)]"
    "jobs (data s') = (jobs (data s))[fst r :=
        (parent_at s r)\<lparr>sequence := (sequence (parent_at s r))[snd r :=
             (task_at s r)\<lparr>scheduled_time := max (start (timeline_of s r ! k)) (cursor s r)\<rparr>],
           last_scheduled_time :=
             max (start (timeline_of s r ! k)) (cursor s r) + duration (task_at s r)\<rparr>]"
    "machine_count (data s') = machine_count (data s)"
proof -
  have v: "valid_ref s r"
    using assms
    by (auto simp: add_task_def valid_ref_def Let_def parent_at_def task_at_def machine_of_def
          split: if_splits)
  then obtain k where
    k: "advance (timeline_of s r) (interval_at (timeline_of s r) (cursor s r)) (cursor s r)
        (duration (task_at s r)) = Inr k"
    using assms
    by (auto simp: add_task_def valid_ref_def Let_def parent_at_def task_at_def machine_of_def
          timeline_of_def cursor_def split: if_splits sum.splits)
  then have len: "k < length (timeline_of s r)" by (auto dest: advance_Inr)
  obtain tl' p' where st: "schedule_task r (parent_at s r) (timeline_of s r) k
       (max (start (timeline_of s r ! k)) (cursor s r)) = (tl', p')"
    by (cases "schedule_task r (parent_at s r) (timeline_of s r) k
       (max (start (timeline_of s r ! k)) (cursor s r))") auto
  have s': "s' = s\<lparr>table := (table s)[machine_of s r := tl'],
                   data := (data s)\<lparr>jobs := (jobs (data s))[fst r := p']\<rparr>\<rparr>"
    using assms v k st
    by (simp add: add_task_def valid_ref_def Let_def parent_at_def task_at_def machine_of_def
          timeline_of_def cursor_def)
  have tl': "tl' = take k (timeline_of s r)
        @ placed_block (timeline_of s r ! k) r (max (start (timeline_of s r ! k)) (cursor s r))
            (duration (task_at s r))
        @ drop (Suc k) (timeline_of s r)"
    using schedule_task_timeline [OF len, of r "parent_at s r"
        "max (start (timeline_of s r ! k)) (cursor s r)"] st by (simp add: task_at_def)
  have p': "p' = (parent_at s r)\<lparr>sequence := (sequence (parent_at s r))[snd r :=
             (task_at s r)\<lparr>scheduled_time := max (start (timeline_of s r ! k)) (cursor s r)\<rparr>],
           last_scheduled_time :=
             max (start (timeline_of s r ! k)) (cursor s r) + duration (task_at s r)\<rparr>"
    using st by (simp add: schedule_task_def Let_def task_at_def)
  show thesis
    by (rule that [OF v k]) (simp_all add: s' tl' p')
qed

lemma add_task_advance:
  assumes "valid_ref s r"
  shows "advance (timeline_of s r) (interval_at (timeline_of s r) (cursor s r)) (cursor s r)
           (duration (task_at s r)) = Inl e \<Longrightarrow> add_task r s = Inl e"
    and "advance (timeline_of s r) (interval_at (timeline_of s r) (cursor s r)) (cursor s r)
           (duration (task_at s r)) = Inr k \<Longrightarrow> \<exists>s'. add_task r s = Inr s'"
  using assms
  by (auto simp: add_task_def valid_ref_def Let_def parent_at_def task_at_def machine_of_def
        timeline_of_def cursor_def split: prod.splits)

lemma add_task_total:
  assumes "valid_ref s r" "tiles 0 (timeline_of s r)"
  shows "\<exists>s'. add_task r s = Inr s'"
proof -
  have "interval_at (timeline_of s r) (cursor s r) < length (timeline_of s r)"
    using assms(2) by (rule tiles_interval_at) simp
  from tiles_advance [OF assms(2) this]
  obtain k where "advance (timeline_of s r) (interval_at (timeline_of s r) (cursor s r))
      (cursor s r) (duration (task_at s r)) = Inr k" by blast
  then show ?thesis
    using assms(1)
    by (auto simp: add_task_def valid_ref_def Let_def parent_at_def task_at_def machine_of_def
          timeline_of_def cursor_def split: prod.splits)
qed

lemma add_task_task_at:
  assumes "add_task r s = Inr s'"
  obtains k where
    "advance (timeline_of s r) (interval_at (timeline_of s r) (cursor s r)) (cursor s r)
        (duration (task_at s r)) = Inr k"
    "task_at s' r = (task_at s r)\<lparr>scheduled_time := max (start (timeline_of s r ! k)) (cursor s r)\<rparr>"
    "cursor s' r = max (start (timeline_of s r ! k)) (cursor s r) + duration (task_at s r)"
    "table s' ! machine_of s r =
        take k (timeline_of s r)
        @ placed_block (timeline_of s r ! k) r (max (start (timeline_of s r ! k)) (cursor s r))
            (duration (task_at s r))
        @ drop (Suc k) (timeline_of s r)"
proof -
  from assms obtain k where k: "valid_ref s r"
    "advance (timeline_of s r) (interval_at (timeline_of s r) (cursor s r)) (cursor s r)
        (duration (task_at s r)) = Inr k"
    "table s' = (table s)[machine_of s r :=
        take k (timeline_of s r)
        @ placed_block (timeline_of s r ! k) r (max (start (timeline_of s r ! k)) (cursor s r))
            (duration (task_at s r))
        @ drop (Suc k) (timeline_of s r)]"
    "jobs (data s') = (jobs (data s))[fst r :=
        (parent_at s r)\<lparr>sequence := (sequence (parent_at s r))[snd r :=
             (task_at s r)\<lparr>scheduled_time := max (start (timeline_of s r ! k)) (cursor s r)\<rparr>],
           last_scheduled_time :=
             max (start (timeline_of s r ! k)) (cursor s r) + duration (task_at s r)\<rparr>]"
    by (rule add_task_InrE)
  show thesis
    using k(1) by (intro that [OF k(2)]) (simp_all add: k(3,4) task_at_def parent_at_def cursor_def valid_ref_def)
qed

lemma add_task_table_frame:
  assumes "add_task r s = Inr s'"
  shows "length (table s') = length (table s)"
    and "m \<noteq> machine_of s r \<Longrightarrow> table s' ! m = table s ! m"
  using assms by (auto elim!: add_task_InrE)

lemma placed_block_nonempty [simp]: "placed_block c r st d \<noteq> []"
  by (simp add: placed_block_def)

lemma tiles_place:
  assumes t: "tiles m0 ivs" and k: "k < length ivs" and free: "\<not> occupied (ivs ! k)"
    and fit: "includes_from (ivs ! k) e d" and pos: "0 < unat d"
    and room: "unat (max (start (last ivs)) e) + unat d \<le> 4294967295"
  shows "tiles m0 (take k ivs @ placed_block (ivs ! k) r (max (start (ivs ! k)) e) d
                   @ drop (Suc k) ivs)"
proof -
  let ?rest = "drop (Suc k) ivs"
  let ?new = "placed_block (ivs ! k) r (max (start (ivs ! k)) e) d"
  have split: "take k ivs @ (ivs ! k) # ?rest = ivs"
    using k by (rule id_take_nth_drop [symmetric])
  have whole: "tiles m0 (take k ivs @ (ivs ! k) # ?rest)" using t by (simp only: split)
  have ne: "ivs ! k # ?rest \<noteq> []" by simp
  from tiles_append [OF ne, THEN iffD1, OF whole]
  obtain m where m: "seg m0 (take k ivs) m" "tiles m (ivs ! k # ?rest)" by blast
  have "last (take k ivs @ (ivs ! k) # ?rest) = last (ivs ! k # ?rest)" by simp
  then have eq: "last (ivs ! k # ?rest) = last ivs" by (simp only: split)
  have room': "unat (max (start (last (ivs ! k # ?rest))) e) + unat d \<le> 4294967295"
    unfolding eq by (rule room)
  from tiles_split_head [OF m(2) free fit pos room']
  have new: "tiles m (?new @ ?rest)" .
  have ne': "?new @ ?rest \<noteq> []" by simp
  have "\<exists>m. seg m0 (take k ivs) m \<and> tiles m (?new @ ?rest)" using m(1) new by blast
  then show ?thesis by (rule tiles_append [OF ne', THEN iffD2])
qed

lemma tiles_length_tl: "tiles m ivs \<Longrightarrow> length_tl ivs = Inr (start (last ivs))"
  using tiles_last [of m ivs] by (simp add: length_tl_def)

lemma add_task_keeps_tiles:
  assumes step: "add_task r s = Inr s'"
    and inv: "\<forall>ivs \<in> set (table s). tiles 0 ivs"
    and pos: "0 < duration (task_at s r)"
    and room: "unat (max (start (last (timeline_of s r))) (cursor s r))
                 + unat (duration (task_at s r)) \<le> 4294967295"
  shows "\<forall>ivs \<in> set (table s'). tiles 0 ivs"
proof -
  from step obtain k where k: "valid_ref s r"
    "advance (timeline_of s r) (interval_at (timeline_of s r) (cursor s r)) (cursor s r)
        (duration (task_at s r)) = Inr k"
    "table s' = (table s)[machine_of s r :=
        take k (timeline_of s r)
        @ placed_block (timeline_of s r ! k) r (max (start (timeline_of s r ! k)) (cursor s r))
            (duration (task_at s r))
        @ drop (Suc k) (timeline_of s r)]"
    by (rule add_task_InrE)
  note a = advance_Inr [OF k(2)]
  have "timeline_of s r \<in> set (table s)"
    using k(1) by (simp add: valid_ref_def timeline_of_def)
  with inv have t: "tiles 0 (timeline_of s r)" by simp
  have p: "0 < unat (duration (task_at s r))" using pos by (simp add: word_less_nat_alt)
  have new: "tiles 0 (take k (timeline_of s r)
        @ placed_block (timeline_of s r ! k) r (max (start (timeline_of s r ! k)) (cursor s r))
            (duration (task_at s r))
        @ drop (Suc k) (timeline_of s r))"
    using a by (intro tiles_place [OF t _ _ _ p room]) simp_all
  have "set (table s') \<subseteq> insert (take k (timeline_of s r)
        @ placed_block (timeline_of s r ! k) r (max (start (timeline_of s r ! k)) (cursor s r))
            (duration (task_at s r))
        @ drop (Suc k) (timeline_of s r)) (set (table s))"
    unfolding k(3) by (rule set_update_subset_insert)
  with new inv show ?thesis by blast
qed

lemma tiles_covers: "tiles 0 ivs \<Longrightarrow> \<exists>k<length ivs. includes_time (ivs ! k) t"
  using tiles_interval_at [of 0 ivs t] interval_at_found [of ivs t] by auto

subsection \<open>Reading the result\<close>

lemma digit_char: "k < 10 \<Longrightarrow> ''0123456789'' ! k \<in> set ''0123456789''"
  by (rule nth_mem) simp

lemma digit_value_all: "list_all (\<lambda>k. digit_value (''0123456789'' ! k) = k) [0..<10]"
  by code_simp

lemma digit_value_nth: "k < 10 \<Longrightarrow> digit_value (''0123456789'' ! k) = k"
  using digit_value_all by (simp add: list_all_iff)

lemma decimal_chars: "set (decimal n) \<subseteq> set ''0123456789''"
proof (induction n rule: decimal.induct)
  case (1 n)
  show ?case
  proof (cases "n < 10")
    case True
    then show ?thesis using digit_char [of n] by (simp add: decimal.simps [of n])
  next
    case False
    have "n mod 10 < 10" by simp
    with 1 False digit_char [of "n mod 10"] show ?thesis
      by (simp add: decimal.simps [of n])
  qed
qed

lemma decimal_no_break: "CHR 10 \<notin> set (decimal n)" "CHR '' '' \<notin> set (decimal n)"
  using decimal_chars [of n] by auto

lemma decimal_nonempty: "decimal n \<noteq> []"
  by (simp add: decimal.simps [of n])

lemma digits_value_snoc: "digits_value (cs @ [c]) = 10 * digits_value cs + digit_value c"
  by (simp add: digits_value_def)

lemma digits_value_decimal: "digits_value (decimal n) = n"
proof (induction n rule: decimal.induct)
  case (1 n)
  show ?case
  proof (cases "n < 10")
    case True
    then show ?thesis
      by (simp add: decimal.simps [of n] digits_value_def digit_value_nth)
  next
    case False
    with 1 have "digits_value (decimal (n div 10)) = n div 10" by simp
    then show ?thesis
      using False by (simp add: decimal.simps [of n] digits_value_snoc digit_value_nth)
  qed
qed

lemma length_tl_Inr: "ivs \<noteq> [] \<Longrightarrow> \<exists>l. length_tl ivs = Inr l"
  by (simp add: length_tl_def)

lemma max_element_Inr:
  assumes "t \<noteq> []" "\<forall>ivs \<in> set ts. ivs \<noteq> []"
  shows "\<exists>largest l. max_element t ts = Inr largest \<and> largest \<in> set (t # ts)
           \<and> length_tl largest = Inr l
           \<and> (\<forall>ivs \<in> set (t # ts). \<exists>l'. length_tl ivs = Inr l' \<and> l' \<le> l)"
  using assms
proof (induction ts arbitrary: t)
  case Nil
  then show ?case using length_tl_Inr [of t] by auto
next
  case (Cons u ts)
  have "t \<noteq> []" "u \<noteq> []" using Cons.prems by simp_all
  from length_tl_Inr [OF this(1)] length_tl_Inr [OF this(2)]
  obtain lt lu where l: "length_tl t = Inr lt" "length_tl u = Inr lu" by blast
  let ?n = "if lt < lu then u else t"
  have n: "?n \<noteq> []" using Cons.prems by simp
  from Cons.IH [OF n] Cons.prems(2)
  obtain largest l where r: "max_element ?n ts = Inr largest" "largest \<in> set (?n # ts)"
    "length_tl largest = Inr l"
    "\<forall>ivs \<in> set (?n # ts). \<exists>l'. length_tl ivs = Inr l' \<and> l' \<le> l"
    by auto
  have me: "max_element t (u # ts) = Inr largest"
    using r(1) by (simp add: timeline_less_def l)
  from r(4) have "\<exists>l'. length_tl ?n = Inr l' \<and> l' \<le> l" by simp
  then have "lt \<le> l \<and> lu \<le> l" using l by (auto split: if_splits)
  with r l have "\<forall>ivs \<in> set (t # u # ts). \<exists>l'. length_tl ivs = Inr l' \<and> l' \<le> l"
    by auto
  moreover have "largest \<in> set (t # u # ts)" using r(2) by (auto split: if_splits)
  ultimately show ?case using me r(3) by blast
qed

subsection \<open>Sorting\<close>

lemma mset_insert_by: "mset (insert_by cmp x ys) = add_mset x (mset ys)"
  by (induction ys) auto

lemma mset_foldr_insert_by: "mset (foldr (insert_by cmp) xs []) = mset xs"
  by (induction xs) (auto simp: mset_insert_by)

lemma std_sort_Inr:
  assumes "std_sort cmp xs = Inr ys"
  shows "ys = foldr (insert_by cmp) xs []" and "strict_weak cmp xs"
    and "mset ys = mset xs" and "set ys = set xs" and "distinct ys = distinct xs"
proof -
  show ys: "ys = foldr (insert_by cmp) xs []" and "strict_weak cmp xs"
    using assms by (auto simp: std_sort_def split: if_splits)
  show m: "mset ys = mset xs" unfolding ys by (rule mset_foldr_insert_by)
  show "set ys = set xs" using m by (rule mset_eq_setD)
  show "distinct ys = distinct xs" using m by (rule mset_eq_imp_distinct_iff)
qed

text \<open>
  With a strict weak ordering the result is sorted: no element is less than one before
  it.
\<close>

lemma strict_weak_facts:
  assumes "strict_weak cmp xs"
  shows "\<And>x. x \<in> set xs \<Longrightarrow> \<not> cmp x x"
    and "\<And>x y z. x \<in> set xs \<Longrightarrow> y \<in> set xs \<Longrightarrow> z \<in> set xs \<Longrightarrow> cmp x y \<Longrightarrow> cmp y z \<Longrightarrow> cmp x z"
    and "\<And>x y z. x \<in> set xs \<Longrightarrow> y \<in> set xs \<Longrightarrow> z \<in> set xs
           \<Longrightarrow> \<not> cmp y x \<Longrightarrow> \<not> cmp z y \<Longrightarrow> \<not> cmp z x"
proof -
  have irr: "\<And>x. x \<in> set xs \<Longrightarrow> \<not> cmp x x"
    using assms by (simp add: strict_weak_def list_all_iff)
  have tr: "\<And>x y z. x \<in> set xs \<Longrightarrow> y \<in> set xs \<Longrightarrow> z \<in> set xs \<Longrightarrow> cmp x y \<Longrightarrow> cmp y z \<Longrightarrow> cmp x z"
    using assms unfolding strict_weak_def list_all_iff by metis
  have eq: "\<And>x y z. x \<in> set xs \<Longrightarrow> y \<in> set xs \<Longrightarrow> z \<in> set xs
      \<Longrightarrow> \<not> cmp x y \<Longrightarrow> \<not> cmp y x \<Longrightarrow> \<not> cmp y z \<Longrightarrow> \<not> cmp z y \<Longrightarrow> \<not> cmp x z \<and> \<not> cmp z x"
    using assms unfolding strict_weak_def list_all_iff by metis
  show "\<And>x. x \<in> set xs \<Longrightarrow> \<not> cmp x x" by (rule irr)
  show "\<And>x y z. x \<in> set xs \<Longrightarrow> y \<in> set xs \<Longrightarrow> z \<in> set xs \<Longrightarrow> cmp x y \<Longrightarrow> cmp y z \<Longrightarrow> cmp x z"
    by (rule tr)
  show "\<not> cmp z x" if "x \<in> set xs" "y \<in> set xs" "z \<in> set xs" "\<not> cmp y x" "\<not> cmp z y" for x y z
    using that irr tr eq by metis
qed

lemma sorted_wrt_insert_by:
  assumes sw: "strict_weak cmp xs" and x: "x \<in> set xs" and ys: "set ys \<subseteq> set xs"
    and srt: "sorted_wrt (\<lambda>a b. \<not> cmp b a) ys"
  shows "sorted_wrt (\<lambda>a b. \<not> cmp b a) (insert_by cmp x ys)"
  using ys srt
proof (induction ys)
  case Nil then show ?case by simp
next
  case (Cons y ys)
  note f = strict_weak_facts [OF sw]
  show ?case
  proof (cases "cmp y x")
    case True
    have "set (insert_by cmp x ys) = insert x (set ys)"
      using mset_insert_by [of cmp x ys]
      by (metis mset_eq_setD set_mset_add_mset_insert set_mset_mset)
    moreover have "\<not> cmp x y" using f(1,2) [of y] x Cons.prems(1) True by (metis list.set_intros(1) subsetD)
    ultimately show ?thesis using True Cons by auto
  next
    case False
    have "\<not> cmp z x" if "z \<in> set ys" for z
      using f(3) [of x y z] x Cons.prems that False by auto
    with False Cons.prems(2) show ?thesis by auto
  qed
qed

lemma sorted_wrt_foldr_insert_by:
  assumes sw: "strict_weak cmp xs" and ys: "set ys \<subseteq> set xs"
  shows "sorted_wrt (\<lambda>a b. \<not> cmp b a) (foldr (insert_by cmp) ys [])"
  using ys
proof (induction ys)
  case Nil then show ?case by simp
next
  case (Cons y ys)
  have "set (foldr (insert_by cmp) ys []) = set ys"
    using mset_foldr_insert_by [of cmp ys] by (rule mset_eq_setD)
  with Cons show ?case by (auto intro!: sorted_wrt_insert_by [OF sw])
qed

lemma std_sort_sorted:
  "std_sort cmp xs = Inr ys \<Longrightarrow> sorted_wrt (\<lambda>a b. \<not> cmp b a) ys"
  using sorted_wrt_foldr_insert_by [of cmp xs xs] by (auto simp: std_sort_def split: if_splits)

lemma sorted_insert_by_key:
  fixes f :: "'a \<Rightarrow> 'b::linorder"
  shows "sorted (map f ys) \<Longrightarrow> sorted (map f (insert_by (\<lambda>a b. f a < f b) x ys))"
proof (induction ys)
  case Nil then show ?case by simp
next
  case (Cons y ys)
  have "set (insert_by (\<lambda>a b. f a < f b) x ys) = insert x (set ys)"
    using mset_insert_by [of "\<lambda>a b. f a < f b" x ys]
    by (metis mset_eq_setD set_mset_add_mset_insert set_mset_mset)
  with Cons show ?case by (auto simp: not_less)
qed

lemma sorted_foldr_insert_by_key:
  fixes f :: "'a \<Rightarrow> 'b::linorder"
  shows "sorted (map f (foldr (insert_by (\<lambda>a b. f a < f b)) xs []))"
  by (induction xs) (auto simp: sorted_insert_by_key)

text \<open>Elements of equal key keep their order.\<close>

lemma filter_insert_by_key:
  fixes f :: "'a \<Rightarrow> 'b::linorder"
  shows "filter (\<lambda>y. f y = k) (insert_by (\<lambda>a b. f a < f b) x ys)
           = (if f x = k then x # filter (\<lambda>y. f y = k) ys else filter (\<lambda>y. f y = k) ys)"
  by (induction ys) auto

lemma filter_foldr_insert_by_key:
  fixes f :: "'a \<Rightarrow> 'b::linorder"
  shows "filter (\<lambda>y. f y = k) (foldr (insert_by (\<lambda>a b. f a < f b)) xs [])
           = filter (\<lambda>y. f y = k) xs"
  by (induction xs) (auto simp: filter_insert_by_key)

lemma strict_weak_key:
  fixes f :: "'a \<Rightarrow> 'b::linorder"
  shows "strict_weak (\<lambda>a b. f a < f b) xs"
  by (auto simp: strict_weak_def list_all_iff)

lemma std_sort_key:
  fixes f :: "'a \<Rightarrow> 'b::linorder"
  shows "std_sort (\<lambda>a b. f a < f b) xs = Inr (foldr (insert_by (\<lambda>a b. f a < f b)) xs [])"
  by (simp add: std_sort_def strict_weak_key)

text \<open>The last sort of \<open>schedule_jobs\<close>, on the jobs paired with their positions.\<close>

lemma sort_by_id:
  assumes "std_sort (\<lambda>a b. job_id (snd a) < job_id (snd b)) (enumerate 0 js) = Inr sorted_jobs"
  shows "mset (map snd sorted_jobs) = mset js"
    and "mset (map fst sorted_jobs) = mset [0..<length js]"
    and "sorted (map job_id (map snd sorted_jobs))"
proof -
  have m: "mset sorted_jobs = mset (enumerate 0 js)" using assms by (rule std_sort_Inr(3))
  have "mset (map snd sorted_jobs) = mset (map snd (enumerate 0 js))"
    using m by (simp only: mset_map)
  then show "mset (map snd sorted_jobs) = mset js" by simp
  have "mset (map fst sorted_jobs) = mset (map fst (enumerate 0 js))"
    using m by (simp only: mset_map)
  then show "mset (map fst sorted_jobs) = mset [0..<length js]" by simp
  have "sorted_jobs = foldr (insert_by (\<lambda>a b. job_id (snd a) < job_id (snd b))) (enumerate 0 js) []"
    using assms by (rule std_sort_Inr(1))
  then have "sorted (map (\<lambda>a. job_id (snd a)) sorted_jobs)"
    using sorted_foldr_insert_by_key [of "\<lambda>a. job_id (snd a)" "enumerate 0 js"] by simp
  then show "sorted (map job_id (map snd sorted_jobs))" by (simp add: comp_def)
qed

lemma schedule_jobs_InrE:
  assumes "schedule_jobs h s = Inr s'"
  obtains s1 sorted_jobs where
    "jobs (data s) \<noteq> []"
    "stages h [0..<sequence_length s] s = Inr s1"
    "std_sort (\<lambda>a b. job_id (snd a) < job_id (snd b)) (enumerate 0 (jobs (data s1)))
       = Inr sorted_jobs"
    "s' = s1\<lparr>table := map (map (moved_with (map fst sorted_jobs))) (table s1),
             data := (data s1)\<lparr>jobs := map snd sorted_jobs\<rparr>\<rparr>"
  using assms by (auto simp: schedule_jobs_def split: if_splits sum.splits)

subsection \<open>The order of a job's tasks\<close>

lemma add_task_data:
  assumes "add_task r s = Inr s'"
  shows "valid_ref s r"
    and "length (jobs (data s')) = length (jobs (data s))"
    and "j \<noteq> fst r \<Longrightarrow> jobs (data s') ! j = jobs (data s) ! j"
    and "job_id (parent_at s' r) = job_id (parent_at s r)"
    and "length (sequence (parent_at s' r)) = length (sequence (parent_at s r))"
    and "i \<noteq> snd r \<Longrightarrow> sequence (parent_at s' r) ! i = sequence (parent_at s r) ! i"
    and "duration (task_at s' r) = duration (task_at s r)"
    and "machine_id (task_at s' r) = machine_id (task_at s r)"
    and "cursor s r \<le> scheduled_time (task_at s' r)"
    and "cursor s' r = scheduled_time (task_at s' r) + duration (task_at s' r)"
proof -
  from assms obtain k where k: "valid_ref s r"
    "jobs (data s') = (jobs (data s))[fst r :=
        (parent_at s r)\<lparr>sequence := (sequence (parent_at s r))[snd r :=
             (task_at s r)\<lparr>scheduled_time := max (start (timeline_of s r ! k)) (cursor s r)\<rparr>],
           last_scheduled_time :=
             max (start (timeline_of s r ! k)) (cursor s r) + duration (task_at s r)\<rparr>]"
    by (rule add_task_InrE)
  show "valid_ref s r" by (rule k(1))
  show "length (jobs (data s')) = length (jobs (data s))" by (simp add: k(2))
  show "j \<noteq> fst r \<Longrightarrow> jobs (data s') ! j = jobs (data s) ! j" by (simp add: k(2))
  have p: "parent_at s' r = (parent_at s r)\<lparr>sequence := (sequence (parent_at s r))[snd r :=
             (task_at s r)\<lparr>scheduled_time := max (start (timeline_of s r ! k)) (cursor s r)\<rparr>],
           last_scheduled_time :=
             max (start (timeline_of s r ! k)) (cursor s r) + duration (task_at s r)\<rparr>"
    using k(1) by (simp add: parent_at_def k(2) valid_ref_def)
  have t: "task_at s' r
      = (task_at s r)\<lparr>scheduled_time := max (start (timeline_of s r ! k)) (cursor s r)\<rparr>"
    using k(1) by (simp add: task_at_def p valid_ref_def)
  show "job_id (parent_at s' r) = job_id (parent_at s r)" by (simp add: p)
  show "length (sequence (parent_at s' r)) = length (sequence (parent_at s r))" by (simp add: p)
  show "i \<noteq> snd r \<Longrightarrow> sequence (parent_at s' r) ! i = sequence (parent_at s r) ! i"
    by (simp add: p)
  show "duration (task_at s' r) = duration (task_at s r)" by (simp add: t)
  show "machine_id (task_at s' r) = machine_id (task_at s r)" by (simp add: t)
  show "cursor s r \<le> scheduled_time (task_at s' r)" by (simp add: t)
  show "cursor s' r = scheduled_time (task_at s' r) + duration (task_at s' r)"
    by (simp add: cursor_def p t)
qed




subsection \<open>Blocks and tasks\<close>

lemma add_task_other_task:
  assumes "add_task r s = Inr s'" "r' \<noteq> r"
  shows "task_at s' r' = task_at s r'"
proof (cases "fst r' = fst r")
  case True
  with assms(2) have "snd r' \<noteq> snd r" by (auto simp: prod_eq_iff)
  from add_task_data(6) [OF assms(1) this] True show ?thesis
    by (simp add: task_at_def parent_at_def)
next
  case False
  from add_task_data(3) [OF assms(1) False] show ?thesis
    by (simp add: task_at_def parent_at_def)
qed

lemma add_task_static:
  assumes "add_task r s = Inr s'"
  shows "duration (task_at s' r') = duration (task_at s r')"
    and "machine_id (task_at s' r') = machine_id (task_at s r')"
    and "machine_of s' r' = machine_of s r'"
  using add_task_data(7,8) [OF assms] add_task_other_task [OF assms, of r']
  by (cases "r' = r"; simp add: machine_of_def)+

lemma add_task_valid_ref:
  assumes "add_task r s = Inr s'" "valid_ref s r'"
  shows "valid_ref s' r'"
proof -
  note d = add_task_data [OF assms(1)]
  have len: "length (sequence (parent_at s' r')) = length (sequence (parent_at s r'))"
  proof (cases "fst r' = fst r")
    case True
    with d(5) show ?thesis by (simp add: parent_at_def)
  next
    case False
    from d(3) [OF False] show ?thesis by (simp add: parent_at_def)
  qed
  show ?thesis
    using assms(2) len d(2) add_task_static [OF assms(1), of r'] add_task_table_frame(1) [OF assms(1)]
    by (simp add: valid_ref_def)
qed

lemma block_ok_frame:
  assumes step: "add_task r s = Inr s'" and ok: "block_ok s m iv" and other: "task iv \<noteq> Some r"
  shows "block_ok s' m iv"
proof (cases "task iv")
  case None
  then show ?thesis by (simp add: block_ok_def)
next
  case (Some r')
  with other have ne: "r' \<noteq> r" by simp
  from ok Some have v: "valid_ref s r'" by (simp add: block_ok_def)
  show ?thesis
    using ok Some add_task_other_task [OF step ne] add_task_valid_ref [OF step v]
      add_task_static(3) [OF step, of r']
    by (simp add: block_ok_def)
qed

lemma placed_block_tasks:
  "iv \<in> set (placed_block c r st d) \<Longrightarrow> task iv \<noteq> None
     \<Longrightarrow> iv = \<lparr>start = st, end_t = st + d - 1, task = Some r\<rparr>"
  by (auto simp: placed_block_def interval_empty_def split: if_splits)

lemma tiles_nth_start_le:
  assumes t: "tiles m ivs" and k: "k < length ivs"
  shows "start (ivs ! k) \<le> start (last ivs)"
proof (cases "k = length ivs - 1")
  case True
  have "ivs \<noteq> []" using k by auto
  then have "last ivs = ivs ! (length ivs - 1)" by (rule last_conv_nth)
  with True show ?thesis by simp
next
  case False
  with k have lt: "k < length ivs - 1" "length ivs - 1 < length ivs" by simp_all
  have ne: "ivs \<noteq> []" using k by auto
  have "sorted_wrt (\<lambda>a b. end_t a < start b) ivs" using t by (rule tiles_sorted)
  with lt have "end_t (ivs ! k) < start (ivs ! (length ivs - 1))"
    by (simp add: sorted_wrt_iff_nth_less)
  moreover have "start (ivs ! k) \<le> end_t (ivs ! k)" using tiles_bounds [OF t] k by simp
  ultimately show ?thesis using ne by (simp add: last_conv_nth)
qed

lemma add_task_consistent:
  assumes step: "add_task r s = Inr s'"
    and con: "consistent s" and fresh: "\<not> placed s r"
    and pos: "0 < duration (task_at s r)"
    and room: "unat (max (start (last (timeline_of s r))) (cursor s r))
                 + unat (duration (task_at s r)) \<le> 4294967295"
  shows "consistent s'"
proof -
  let ?tl = "timeline_of s r" and ?e = "cursor s r" and ?d = "duration (task_at s r)"
  let ?m = "machine_of s r"
  from step obtain k where k: "valid_ref s r"
    "advance ?tl (interval_at ?tl ?e) ?e ?d = Inr k"
    "table s' = (table s)[?m :=
        take k ?tl @ placed_block (?tl ! k) r (max (start (?tl ! k)) ?e) ?d @ drop (Suc k) ?tl]"
    by (rule add_task_InrE)
  let ?st = "max (start (?tl ! k)) ?e"
  note a = advance_Inr [OF k(2)]
  have m: "?m < length (table s)" using k(1) by (simp add: valid_ref_def)
  have inv: "\<forall>ivs \<in> set (table s). tiles 0 ivs" using con by (simp add: consistent_def timeline_inv_def)
  have tl: "tiles 0 ?tl" using inv m by (simp add: timeline_of_def)
  have inv': "\<forall>ivs \<in> set (table s'). timeline_inv ivs"
    using add_task_keeps_tiles [OF step inv pos room] by (simp add: timeline_inv_def)
  have len': "length (table s') = length (table s)" by (simp add: k(3))
  have old_ok: "block_ok s' n iv" if "n < length (table s)" "iv \<in> set (table s ! n)" for n iv
  proof -
    from con that have ok: "block_ok s n iv" by (simp add: consistent_def)
    have "table s ! n \<in> set (table s)" using that(1) by simp
    with fresh that(2) have "task iv \<noteq> Some r" by (auto simp: placed_def)
    with step ok show ?thesis by (rule block_ok_frame)
  qed
  have le: "unat ?st \<le> unat (max (start (last ?tl)) ?e)"
    using tiles_nth_start_le [OF tl, of k] a by (simp add: unat_max32 word_le_nat_alt)
  have p: "0 < unat ?d" using pos by (simp add: word_less_nat_alt)
  have sum: "unat ?st + unat ?d \<le> 4294967295" using le room by simp
  have e1: "unat (?st + ?d - 1) = unat ?st + unat ?d - 1" using sum p by (rule unat_block_end)
  have t': "task_at s' r = (task_at s r)\<lparr>scheduled_time := ?st\<rparr>"
  proof -
    from step obtain k' where k': "advance ?tl (interval_at ?tl ?e) ?e ?d = Inr k'"
      "task_at s' r = (task_at s r)\<lparr>scheduled_time := max (start (?tl ! k')) ?e\<rparr>"
      by (rule add_task_task_at)
    with k(2) show ?thesis by simp
  qed
  have new_ok: "block_ok s' ?m \<lparr>start = ?st, end_t = ?st + ?d - 1, task = Some r\<rparr>"
    using add_task_valid_ref [OF step k(1)] add_task_static(3) [OF step, of r] t' e1 p
    by (simp add: block_ok_def)
  have "block_ok s' n iv" if n: "n < length (table s')" and iv: "iv \<in> set (table s' ! n)" for n iv
  proof (cases "n = ?m")
    case False
    then have "table s' ! n = table s ! n" by (simp add: k(3))
    with n iv len' show ?thesis by (intro old_ok) simp_all
  next
    case True
    then have "table s' ! n =
        take k ?tl @ placed_block (?tl ! k) r ?st ?d @ drop (Suc k) ?tl"
      using m by (simp add: k(3))
    with iv consider "iv \<in> set (take k ?tl)" | "iv \<in> set (placed_block (?tl ! k) r ?st ?d)"
      | "iv \<in> set (drop (Suc k) ?tl)" by auto
    then show ?thesis
    proof cases
      case 1
      then have "iv \<in> set ?tl" by (rule in_set_takeD)
      then show ?thesis using True m old_ok [of ?m iv] by (simp add: timeline_of_def)
    next
      case 3
      then have "iv \<in> set ?tl" by (rule in_set_dropD)
      then show ?thesis using True m old_ok [of ?m iv] by (simp add: timeline_of_def)
    next
      case 2
      show ?thesis
      proof (cases "task iv")
        case None
        then show ?thesis by (simp add: block_ok_def)
      next
        case (Some r')
        with placed_block_tasks [OF 2] have "iv = \<lparr>start = ?st, end_t = ?st + ?d - 1, task = Some r\<rparr>"
          by simp
        with new_ok True show ?thesis by simp
      qed
    qed
  qed
  with inv' show ?thesis by (simp add: consistent_def)
qed

lemma consistent_init: "consistent (schedule_init dat)"
  by (simp add: consistent_def schedule_init_def add_def timeline_inv_def block_ok_def)

lemma placedE:
  assumes "placed s r" "consistent s"
  obtains k where "k < length (table s ! machine_of s r)" "machine_of s r < length (table s)"
    "task (table s ! machine_of s r ! k) = Some r"
    "start (table s ! machine_of s r ! k) = scheduled_time (task_at s r)"
    "unat (end_t (table s ! machine_of s r ! k)) + 1
       = unat (scheduled_time (task_at s r)) + unat (duration (task_at s r))"
proof -
  from assms(1) obtain ivs iv where i: "ivs \<in> set (table s)" "iv \<in> set ivs" "task iv = Some r"
    by (auto simp: placed_def)
  from i(1) obtain m where m: "m < length (table s)" "table s ! m = ivs"
    by (auto simp: in_set_conv_nth)
  with assms(2) i(2) have "block_ok s m iv" by (auto simp: consistent_def)
  with i(3) have b: "machine_of s r = m" "start iv = scheduled_time (task_at s r)"
    "unat (end_t iv) + 1 = unat (start iv) + unat (duration (task_at s r))"
    by (simp_all add: block_ok_def)
  from i(2) obtain k where k: "k < length ivs" "ivs ! k = iv" by (auto simp: in_set_conv_nth)
  show thesis
    using k m b i(3) by (intro that [of k]) simp_all
qed

lemma consistent_no_overlap:
  assumes con: "consistent s" and p1: "placed s r1" and p2: "placed s r2" and ne: "r1 \<noteq> r2"
    and same: "machine_id (task_at s r1) = machine_id (task_at s r2)"
  shows "disjoint_spans (task_at s r1) (task_at s r2)"
proof -
  let ?ivs = "table s ! machine_of s r1"
  have mm: "machine_of s r2 = machine_of s r1" using same by (simp add: machine_of_def)
  from placedE [OF p1 con] obtain k1 where k1: "k1 < length ?ivs"
    "machine_of s r1 < length (table s)" "task (?ivs ! k1) = Some r1"
    "start (?ivs ! k1) = scheduled_time (task_at s r1)"
    "unat (end_t (?ivs ! k1)) + 1
       = unat (scheduled_time (task_at s r1)) + unat (duration (task_at s r1))" by blast
  from placedE [OF p2 con] obtain k2 where k2: "k2 < length ?ivs"
    "task (?ivs ! k2) = Some r2"
    "start (?ivs ! k2) = scheduled_time (task_at s r2)"
    "unat (end_t (?ivs ! k2)) + 1
       = unat (scheduled_time (task_at s r2)) + unat (duration (task_at s r2))"
    unfolding mm by blast
  have "?ivs \<in> set (table s)" using k1(2) by simp
  with con have "tiles 0 ?ivs" by (simp add: consistent_def timeline_inv_def)
  then have srt: "sorted_wrt (\<lambda>a b. end_t a < start b) ?ivs" by (rule tiles_sorted)
  have "k1 \<noteq> k2" using k1(3) k2(2) ne by auto
  then consider "k1 < k2" | "k2 < k1" by linarith
  then show ?thesis
  proof cases
    case 1
    with srt k2(1) have "end_t (?ivs ! k1) < start (?ivs ! k2)"
      by (simp add: sorted_wrt_iff_nth_less)
    then have "unat (end_t (?ivs ! k1)) + 1 \<le> unat (start (?ivs ! k2))"
      by (simp add: word_less_nat_alt)
    then show ?thesis using k1(5) k2(3) by (simp add: disjoint_spans_def)
  next
    case 2
    with srt k1(1) have "end_t (?ivs ! k2) < start (?ivs ! k1)"
      by (simp add: sorted_wrt_iff_nth_less)
    then have "unat (end_t (?ivs ! k2)) + 1 \<le> unat (start (?ivs ! k1))"
      by (simp add: word_less_nat_alt)
    then show ?thesis using k2(4) k1(4) by (simp add: disjoint_spans_def)
  qed
qed

lemma placed_nth:
  "placed s r \<longleftrightarrow> (\<exists>n<length (table s). \<exists>iv \<in> set (table s ! n). task iv = Some r)"
  unfolding placed_def by (metis in_set_conv_nth)

lemma add_task_placed:
  assumes step: "add_task r s = Inr s'"
  shows "placed s' r' \<longleftrightarrow> r' = r \<or> placed s r'"
proof -
  let ?tl = "timeline_of s r" and ?e = "cursor s r" and ?d = "duration (task_at s r)"
  let ?m = "machine_of s r"
  from step obtain k where k: "valid_ref s r"
    "advance ?tl (interval_at ?tl ?e) ?e ?d = Inr k"
    "table s' = (table s)[?m :=
        take k ?tl @ placed_block (?tl ! k) r (max (start (?tl ! k)) ?e) ?d @ drop (Suc k) ?tl]"
    by (rule add_task_InrE)
  let ?new = "take k ?tl @ placed_block (?tl ! k) r (max (start (?tl ! k)) ?e) ?d @ drop (Suc k) ?tl"
  note a = advance_Inr [OF k(2)]
  have m: "?m < length (table s)" using k(1) by (simp add: valid_ref_def)
  have split: "take k ?tl @ (?tl ! k) # drop (Suc k) ?tl = ?tl"
    using a by (intro id_take_nth_drop [symmetric]) simp
  have tasks_new: "(\<exists>iv \<in> set ?new. task iv = Some r')
      \<longleftrightarrow> r' = r \<or> (\<exists>iv \<in> set ?tl. task iv = Some r')"
  proof -
    have "(\<exists>iv \<in> set ?tl. task iv = Some r')
        \<longleftrightarrow> (\<exists>iv \<in> set (take k ?tl) \<union> set (drop (Suc k) ?tl). task iv = Some r')"
    proof -
      have "set ?tl = set (take k ?tl) \<union> {?tl ! k} \<union> set (drop (Suc k) ?tl)"
        by (subst split [symmetric]) (simp only: set_append set_simps, auto)
      moreover have "\<not> occupied (?tl ! k)" using a by blast
      then have "task (?tl ! k) = None" unfolding occupied_def by blast
      then have "task (?tl ! k) \<noteq> Some r'" by (simp only: option.distinct not_False_eq_True)
      ultimately show ?thesis by auto
    qed
    moreover have "(\<exists>iv \<in> set (placed_block (?tl ! k) r (max (start (?tl ! k)) ?e) ?d).
        task iv = Some r') \<longleftrightarrow> r' = r"
      by (auto simp: placed_block_def interval_empty_def)
    ultimately show ?thesis by auto
  qed
  have nth': "\<And>n. n < length (table s) \<Longrightarrow> table s' ! n = (if n = ?m then ?new else table s ! n)"
    by (simp add: k(3) nth_list_update)
  have len': "length (table s') = length (table s)" by (simp add: k(3))
  show ?thesis
  proof
    assume "placed s' r'"
    then obtain n iv where n: "n < length (table s)" "iv \<in> set (table s' ! n)" "task iv = Some r'"
      unfolding placed_nth len' by blast
    show "r' = r \<or> placed s r'"
    proof (cases "n = ?m")
      case True
      with n nth' have "\<exists>iv \<in> set ?new. task iv = Some r'" by auto
      then have "r' = r \<or> (\<exists>iv \<in> set ?tl. task iv = Some r')" by (simp only: tasks_new)
      then show ?thesis using m unfolding placed_nth timeline_of_def by blast
    next
      case False
      with n nth' have "iv \<in> set (table s ! n)" by simp
      with n show ?thesis unfolding placed_nth by blast
    qed
  next
    assume "r' = r \<or> placed s r'"
    then consider "r' = r" | n iv where "n < length (table s)" "iv \<in> set (table s ! n)"
      "task iv = Some r'" unfolding placed_nth by blast
    then show "placed s' r'"
    proof cases
      case 1
      then have "r' = r \<or> (\<exists>iv \<in> set ?tl. task iv = Some r')" by blast
      then have "\<exists>iv \<in> set ?new. task iv = Some r'" by (simp only: tasks_new)
      then have "\<exists>iv \<in> set (table s' ! ?m). task iv = Some r'" using nth' [OF m] by simp
      with m show ?thesis unfolding placed_nth len' by blast
    next
      case 2
      show ?thesis
      proof (cases "n = ?m")
        case True
        with 2 have "\<exists>iv \<in> set ?tl. task iv = Some r'" unfolding timeline_of_def by blast
        then have "r' = r \<or> (\<exists>iv \<in> set ?tl. task iv = Some r')" by blast
        then have "\<exists>iv \<in> set ?new. task iv = Some r'" by (simp only: tasks_new)
        then have "\<exists>iv \<in> set (table s' ! ?m). task iv = Some r'" using nth' [OF m] by simp
        with m show ?thesis unfolding placed_nth len' by blast
      next
        case False
        with 2 nth' have "iv \<in> set (table s' ! n)" by simp
        with 2 show ?thesis unfolding placed_nth len' by blast
      qed
    qed
  qed
qed

subsection \<open>The last sort\<close>

text \<open>
  After the last sort every block is bound to the same task as before, at the position
  its job has moved to, so a consistent state stays consistent.
\<close>

lemma position_nth:
  "j \<in> set order \<Longrightarrow> position j order < length order \<and> order ! position j order = j"
  unfolding position_def by (induction order) auto

lemma tiles_moved_with: "tiles m (map (moved_with order) ivs) = tiles m ivs"
  by (induction m ivs rule: tiles.induct) (auto simp: moved_with_def occupied_def)

lemma sort_by_id_nth:
  assumes srt: "std_sort (\<lambda>a b. job_id (snd a) < job_id (snd b)) (enumerate 0 js) = Inr sorted_jobs"
    and j: "j < length js"
  shows "position j (map fst sorted_jobs) < length sorted_jobs"
    and "map snd sorted_jobs ! position j (map fst sorted_jobs) = js ! j"
proof -
  let ?p = "position j (map fst sorted_jobs)"
  have "set (map fst sorted_jobs) = set [0..<length js]"
    using sort_by_id(2) [OF srt] by (rule mset_eq_setD)
  with j have "j \<in> set (map fst sorted_jobs)" by simp
  from position_nth [OF this]
  have p0: "?p < length sorted_jobs" "map fst sorted_jobs ! ?p = j" by simp_all
  have p: "?p < length sorted_jobs" "fst (sorted_jobs ! ?p) = j"
    using p0 nth_map [OF p0(1), of fst] by simp_all
  show "?p < length sorted_jobs" by (rule p(1))
  have "sorted_jobs ! ?p \<in> set sorted_jobs" using p(1) by simp
  then have "sorted_jobs ! ?p \<in> set (enumerate 0 js)"
    using std_sort_Inr(4) [OF srt] by simp
  then have "snd (sorted_jobs ! ?p) = js ! fst (sorted_jobs ! ?p)"
    by (simp add: in_set_enumerate_eq)
  with p show "map snd sorted_jobs ! ?p = js ! j" by simp
qed

lemma schedule_jobs_consistent:
  assumes run: "schedule_jobs h s = Inr s'"
    and s1: "stages h [0..<sequence_length s] s = Inr s1" and con: "consistent s1"
  shows "consistent s'"
proof -
  from run s1 obtain sorted_jobs
    where srt: "std_sort (\<lambda>a b. job_id (snd a) < job_id (snd b)) (enumerate 0 (jobs (data s1)))
                 = Inr sorted_jobs"
      and s': "s' = s1\<lparr>table := map (map (moved_with (map fst sorted_jobs))) (table s1),
                       data := (data s1)\<lparr>jobs := map snd sorted_jobs\<rparr>\<rparr>"
    by (auto elim!: schedule_jobs_InrE)
  let ?o = "map fst sorted_jobs"
  have len: "length sorted_jobs = length (jobs (data s1))"
    using mset_eq_length [OF std_sort_Inr(3) [OF srt]] by simp
  have same: "parent_at s' (position (fst r) ?o, snd r) = parent_at s1 r"
    if "fst r < length (jobs (data s1))" for r
    using sort_by_id_nth [OF srt that] by (simp add: parent_at_def s')
  have ok: "block_ok s' m (moved_with ?o iv)" if b: "block_ok s1 m iv" for m iv
  proof (cases "task iv")
    case None
    then show ?thesis by (simp add: block_ok_def moved_with_def)
  next
    case (Some r)
    with b have v: "valid_ref s1 r" "machine_of s1 r = m"
      "start iv = scheduled_time (task_at s1 r)"
      "unat (end_t iv) + 1 = unat (start iv) + unat (duration (task_at s1 r))"
      by (simp_all add: block_ok_def)
    from v(1) have j: "fst r < length (jobs (data s1))" by (simp add: valid_ref_def)
    let ?r = "(position (fst r) ?o, snd r)"
    note p = same [OF j]
    have t: "task_at s' ?r = task_at s1 r" using p by (simp add: task_at_def)
    have "fst ?r < length (jobs (data s'))"
      using sort_by_id_nth(1) [OF srt j] by (simp add: s')
    with v p t have "valid_ref s' ?r" "machine_of s' ?r = m"
      by (simp_all add: valid_ref_def machine_of_def s')
    with v t Some show ?thesis by (simp add: block_ok_def moved_with_def)
  qed
  have "\<forall>ivs \<in> set (table s'). timeline_inv ivs"
    using con by (auto simp: consistent_def s' timeline_inv_def tiles_moved_with)
  moreover have "\<forall>m \<in> set [0..<length (table s')]. \<forall>iv \<in> set (table s' ! m). block_ok s' m iv"
  proof (intro ballI)
    fix m iv assume m: "m \<in> set [0..<length (table s')]" and iv: "iv \<in> set (table s' ! m)"
    from m have m': "m < length (table s1)" by (simp add: s')
    with iv obtain iv0 where "iv0 \<in> set (table s1 ! m)" "iv = moved_with ?o iv0"
      by (auto simp: s')
    moreover from this m' con have "block_ok s1 m iv0" by (simp add: consistent_def)
    ultimately show "block_ok s' m iv" using ok by simp
  qed
  ultimately show ?thesis by (simp add: consistent_def)
qed

section \<open>The claims\<close>

text \<open>
  C1. Every timeline satisfies the invariant after construction. A placement keeps the
  invariant of every timeline when the task's duration is positive and
  \<open>max(length(), cursor) + duration\<close> does not exceed \<open>infinity\<close>, where \<open>length()\<close> is that
  of the task's machine. A timeline that satisfies the invariant is sorted by start,
  contiguous (\<open>end + 1\<close> of an interval is the start of the next), no two of its intervals
  share a time, every time lies in one of them, it starts at 0, and its last interval
  is free and ends at \<open>infinity\<close>.
\<close>

theorem partition_invariant:
  "(\<forall>ivs \<in> set (table (schedule_init dat)). timeline_inv ivs)
   \<and> ((\<forall>ivs \<in> set (table s). timeline_inv ivs) \<and> add_task r s = Inr s'
        \<and> 0 < duration (task_at s r)
        \<and> length_tl (timeline_of s r) = Inr len
        \<and> unat (max len (cursor s r)) + unat (duration (task_at s r)) \<le> unat infinity
      \<longrightarrow> (\<forall>ivs \<in> set (table s'). timeline_inv ivs))
   \<and> (timeline_inv ivs \<longrightarrow>
        sorted_wrt (\<lambda>a b. start a < start b) ivs
        \<and> (\<forall>k. Suc k < length ivs \<longrightarrow> end_t (ivs ! k) + 1 = start (ivs ! Suc k))
        \<and> (\<forall>k<length ivs. \<forall>l<length ivs. \<forall>t.
              includes_time (ivs ! k) t \<and> includes_time (ivs ! l) t \<longrightarrow> k = l)
        \<and> (\<forall>t. \<exists>k<length ivs. includes_time (ivs ! k) t)
        \<and> ivs \<noteq> [] \<and> start (hd ivs) = 0
        \<and> \<not> occupied (last ivs) \<and> end_t (last ivs) = infinity)"
proof (intro conjI impI)
  show "\<forall>ivs \<in> set (table (schedule_init dat)). timeline_inv ivs"
    by (simp add: schedule_init_def timeline_inv_def add_def)
next
  assume h: "(\<forall>ivs \<in> set (table s). timeline_inv ivs) \<and> add_task r s = Inr s'
        \<and> 0 < duration (task_at s r)
        \<and> length_tl (timeline_of s r) = Inr len
        \<and> unat (max len (cursor s r)) + unat (duration (task_at s r)) \<le> unat infinity"
  then have inv: "\<forall>ivs \<in> set (table s). tiles 0 ivs" by (simp add: timeline_inv_def)
  have "valid_ref s r" using h by (auto elim: add_task_InrE)
  then have "timeline_of s r \<in> set (table s)" by (simp add: valid_ref_def timeline_of_def)
  with inv have "tiles 0 (timeline_of s r)" by blast
  then have "length_tl (timeline_of s r) = Inr (start (last (timeline_of s r)))"
    by (rule tiles_length_tl)
  with h have "len = start (last (timeline_of s r))" by simp
  with h have "unat (max (start (last (timeline_of s r))) (cursor s r))
                 + unat (duration (task_at s r)) \<le> 4294967295"
    by (simp add: unat_infinity)
  with h inv have "\<forall>ivs \<in> set (table s'). tiles 0 ivs"
    by (rule_tac add_task_keeps_tiles [of r s s']) simp_all
  then show "\<forall>ivs \<in> set (table s'). timeline_inv ivs" by (simp add: timeline_inv_def)
next
  assume "timeline_inv ivs"
  then have t: "tiles 0 ivs" by (simp add: timeline_inv_def)
  show "sorted_wrt (\<lambda>a b. start a < start b) ivs" using t by (rule tiles_starts_sorted)
  show "\<forall>k. Suc k < length ivs \<longrightarrow> end_t (ivs ! k) + 1 = start (ivs ! Suc k)"
    using t by (simp add: tiles_contiguous)
  show "\<forall>k<length ivs. \<forall>l<length ivs. \<forall>t.
              includes_time (ivs ! k) t \<and> includes_time (ivs ! l) t \<longrightarrow> k = l"
    using tiles_disjoint [OF t] by blast
  show "\<forall>t. \<exists>k<length ivs. includes_time (ivs ! k) t" using t by (simp add: tiles_covers)
  show "ivs \<noteq> []" "\<not> occupied (last ivs)" "end_t (last ivs) = infinity"
    using tiles_last [OF t] by simp_all
  show "start (hd ivs) = 0" using t by (rule tiles_hd)
qed

theorem partition_invariant_witness:
  "list_all timeline_inv (table (schedule_init scenario))
   \<and> add_task (0, 0) (schedule_init scenario) = Inr scenario_first
   \<and> 0 < duration (task_at (schedule_init scenario) (0, 0))
   \<and> length_tl (timeline_of (schedule_init scenario) (0, 0)) = Inr 0
   \<and> unat (max 0 (cursor (schedule_init scenario) (0, 0)))
        + unat (duration (task_at (schedule_init scenario) (0, 0))) \<le> unat infinity
   \<and> list_all timeline_inv (table scenario_first)
   \<and> sorted_wrt (\<lambda>a b. start a < start b) (table scenario_first ! 0)
   \<and> start (hd (table scenario_first ! 0)) = 0
   \<and> \<not> occupied (last (table scenario_first ! 0))
   \<and> end_t (last (table scenario_first ! 0)) = infinity"
proof -
  have h1: "list_all timeline_inv (table (schedule_init scenario))" by code_simp
  have h2: "add_task (0, 0) (schedule_init scenario) = Inr scenario_first" by code_simp
  have h3: "0 < duration (task_at (schedule_init scenario) (0, 0))" by code_simp
  have h4: "length_tl (timeline_of (schedule_init scenario) (0, 0)) = Inr 0" by code_simp
  have h5: "unat (max 0 (cursor (schedule_init scenario) (0, 0)))
        + unat (duration (task_at (schedule_init scenario) (0, 0))) \<le> unat infinity"
    by (simp add: cursor_def task_at_def parent_at_def schedule_init_def scenario_def
          unat_infinity)
  note t = partition_invariant [of scenario "schedule_init scenario" "(0, 0)" scenario_first 0
      "table scenario_first ! 0"]
  have h1': "\<forall>ivs \<in> set (table (schedule_init scenario)). timeline_inv ivs"
    using h1 by (simp only: list_all_iff)
  have all: "\<forall>ivs \<in> set (table scenario_first). timeline_inv ivs"
    by (rule mp [OF conjunct1 [OF conjunct2 [OF t]]]) (intro conjI h1' h2 h3 h4 h5)
  have mem: "table scenario_first ! 0 \<in> set (table scenario_first)" by code_simp
  have i: "timeline_inv (table scenario_first ! 0)" using all mem by (rule bspec)
  note m = mp [OF conjunct2 [OF conjunct2 [OF t]] i]
  have all': "list_all timeline_inv (table scenario_first)"
    using all by (simp only: list_all_iff)
  from m have c: "sorted_wrt (\<lambda>a b. start a < start b) (table scenario_first ! 0)"
    "start (hd (table scenario_first ! 0)) = 0"
    "\<not> occupied (last (table scenario_first ! 0))"
    "end_t (last (table scenario_first ! 0)) = infinity"
    by blast+
  show ?thesis by (intro conjI h1 h2 h3 h4 h5 all' c)
qed

text \<open>
  With a positive duration alone the invariant is not kept: after a task of \<open>2^32 - 1\<close>
  units, the free tail is \<open>[2^32 - 1, 2^32 - 1]\<close>; a task of 2 units passes the capacity
  test there because the sum wraps around, and the timeline that results is neither
  sorted nor free of overlap.
\<close>

theorem partition_invariant_counterexample:
  "add_task (0, 0) (schedule_init wrap_data) = Inr wrap_first
   \<and> list_all timeline_inv (table wrap_first)
   \<and> 0 < duration (task_at wrap_first (1, 0))
   \<and> add_task (1, 0) wrap_first = Inr wrap_second
   \<and> \<not> timeline_inv (table wrap_second ! 0)
   \<and> map start (table wrap_second ! 0) = [0, 4294967295, 1]
   \<and> map end_t (table wrap_second ! 0) = [4294967294, 0, 4294967295]"
  by code_simp

text \<open>
  C2. After construction the state is consistent. A placement of a task that was not
  placed before keeps it consistent when the task's duration is positive and
  \<open>max(length(), cursor) + duration\<close> does not exceed \<open>infinity\<close>; the placed tasks are then
  the old ones and the new one. In a consistent state the time ranges
  \<open>[start, start + duration - 1]\<close> of any two distinct placed tasks of the same machine do
  not intersect. So the ranges are disjoint after every such call, not only after the
  last.
\<close>

theorem no_overlap_invariant:
  "consistent (schedule_init dat)
   \<and> (consistent s \<and> add_task r s = Inr s' \<and> \<not> placed s r
        \<and> 0 < duration (task_at s r)
        \<and> length_tl (timeline_of s r) = Inr len
        \<and> unat (max len (cursor s r)) + unat (duration (task_at s r)) \<le> unat infinity
      \<longrightarrow> consistent s' \<and> (\<forall>r'. placed s' r' \<longleftrightarrow> r' = r \<or> placed s r'))
   \<and> (consistent s \<and> placed s r1 \<and> placed s r2 \<and> r1 \<noteq> r2
        \<and> machine_id (task_at s r1) = machine_id (task_at s r2)
      \<longrightarrow> disjoint_spans (task_at s r1) (task_at s r2))"
proof (intro conjI impI)
  show "consistent (schedule_init dat)" by (rule consistent_init)
next
  assume h: "consistent s \<and> add_task r s = Inr s' \<and> \<not> placed s r
        \<and> 0 < duration (task_at s r)
        \<and> length_tl (timeline_of s r) = Inr len
        \<and> unat (max len (cursor s r)) + unat (duration (task_at s r)) \<le> unat infinity"
  then have step: "add_task r s = Inr s'" and con: "consistent s" by simp_all
  have "valid_ref s r" using step by (rule add_task_data(1))
  then have "timeline_of s r \<in> set (table s)" by (simp add: valid_ref_def timeline_of_def)
  with con have "tiles 0 (timeline_of s r)" by (simp add: consistent_def timeline_inv_def)
  then have "length_tl (timeline_of s r) = Inr (start (last (timeline_of s r)))"
    by (rule tiles_length_tl)
  with h have "len = start (last (timeline_of s r))" by simp
  with h have room: "unat (max (start (last (timeline_of s r))) (cursor s r))
                 + unat (duration (task_at s r)) \<le> 4294967295"
    by (simp add: unat_infinity)
  show "consistent s'" using step con h room by (intro add_task_consistent [of r s s']) simp_all
  show "\<forall>r'. placed s' r' \<longleftrightarrow> r' = r \<or> placed s r'"
    using add_task_placed [OF step] by blast
next
  assume "consistent s \<and> placed s r1 \<and> placed s r2 \<and> r1 \<noteq> r2
        \<and> machine_id (task_at s r1) = machine_id (task_at s r2)"
  then show "disjoint_spans (task_at s r1) (task_at s r2)"
    by (intro consistent_no_overlap) simp_all
qed

theorem no_overlap_invariant_witness:
  "consistent scenario_first
   \<and> add_task (1, 0) scenario_first = Inr scenario_second
   \<and> \<not> placed scenario_first (1, 0)
   \<and> 0 < duration (task_at scenario_first (1, 0))
   \<and> length_tl (timeline_of scenario_first (1, 0)) = Inr 3
   \<and> unat (max 3 (cursor scenario_first (1, 0)))
        + unat (duration (task_at scenario_first (1, 0))) \<le> unat infinity
   \<and> consistent scenario_second
   \<and> placed scenario_second (0, 0) \<and> placed scenario_second (1, 0)
   \<and> machine_id (task_at scenario_second (0, 0)) = machine_id (task_at scenario_second (1, 0))
   \<and> disjoint_spans (task_at scenario_second (0, 0)) (task_at scenario_second (1, 0))"
proof -
  have h1: "consistent scenario_first" by code_simp
  have h2: "add_task (1, 0) scenario_first = Inr scenario_second" by code_simp
  have h3: "\<not> placed scenario_first (1, 0)" by code_simp
  have h4: "0 < duration (task_at scenario_first (1, 0))" by code_simp
  have h5: "length_tl (timeline_of scenario_first (1, 0)) = Inr 3" by code_simp
  have h6: "unat (max 3 (cursor scenario_first (1, 0)))
        + unat (duration (task_at scenario_first (1, 0))) \<le> unat infinity"
    by (simp add: cursor_def task_at_def parent_at_def scenario_first_def unat_infinity)
  have p1: "placed scenario_second (0, 0)" by code_simp
  have p2: "placed scenario_second (1, 0)" by code_simp
  have ne: "(0, 0) \<noteq> ((1, 0) :: task_ref)" by simp
  have m: "machine_id (task_at scenario_second (0, 0))
      = machine_id (task_at scenario_second (1, 0))" by code_simp
  note t1 = no_overlap_invariant [of scenario scenario_first "(1, 0)" scenario_second 3
      "(0, 0)" "(1, 0)"]
  have c: "consistent scenario_second"
    using mp [OF conjunct1 [OF conjunct2 [OF t1]]] h1 h2 h3 h4 h5 h6 by blast
  note t2 = no_overlap_invariant [of scenario scenario_second "(1, 0)" scenario_second 3
      "(0, 0)" "(1, 0)"]
  have d: "disjoint_spans (task_at scenario_second (0, 0)) (task_at scenario_second (1, 0))"
    using mp [OF conjunct2 [OF conjunct2 [OF t2]]] c p1 p2 ne m by blast
  show ?thesis by (intro conjI h1 h2 h3 h4 h5 h6 c p1 p2 m d)
qed

text \<open>
  With positive durations alone the ranges can intersect: \<open>schedule_jobs\<close> places the
  tasks of \<open>2^31 + 5\<close>, \<open>2^31\<close> and 3 units at 0, at \<open>2^31 + 5\<close> (the end of that block wraps
  around to 4) and at 5, inside the first task's range.
\<close>

theorem no_overlap_counterexample:
  "schedule_jobs longest_first (schedule_init overlap_data) = Inr overlap_final
   \<and> 0 < duration (task_at overlap_final (0, 0))
   \<and> 0 < duration (task_at overlap_final (1, 0))
   \<and> 0 < duration (task_at overlap_final (2, 0))
   \<and> machine_id (task_at overlap_final (0, 0)) = machine_id (task_at overlap_final (2, 0))
   \<and> scheduled_time (task_at overlap_final (0, 0)) = 0
   \<and> duration (task_at overlap_final (0, 0)) = 2147483653
   \<and> scheduled_time (task_at overlap_final (2, 0)) = 5
   \<and> duration (task_at overlap_final (2, 0)) = 3
   \<and> \<not> disjoint_spans (task_at overlap_final (0, 0)) (task_at overlap_final (2, 0))"
proof -
  have a: "schedule_jobs longest_first (schedule_init overlap_data) = Inr overlap_final"
    by code_simp
  have b: "0 < duration (task_at overlap_final (0, 0))"
    "0 < duration (task_at overlap_final (1, 0))"
    "0 < duration (task_at overlap_final (2, 0))"
    "machine_id (task_at overlap_final (0, 0)) = machine_id (task_at overlap_final (2, 0))"
    "scheduled_time (task_at overlap_final (0, 0)) = 0"
    "duration (task_at overlap_final (0, 0)) = 2147483653"
    "scheduled_time (task_at overlap_final (2, 0)) = 5"
    "duration (task_at overlap_final (2, 0)) = 3"
    by (simp_all add: task_at_def parent_at_def overlap_final_def)
  have c: "\<not> disjoint_spans (task_at overlap_final (0, 0)) (task_at overlap_final (2, 0))"
    unfolding disjoint_spans_def b by simp
  show ?thesis by (intro conjI a b c)
qed




text \<open>
  C4. Placement is first-fit. The scan of \<open>add_task\<close> starts at the first interval that
  contains the job's cursor (\<open>earliest\<close>). An interval passes \<open>includes(earliest, duration)\<close>
  exactly when \<open>max(start, earliest) + duration - 1 > end\<close> is false, in \<open>time32_t\<close>
  arithmetic. For a task of a valid job, stage and machine: when some interval at or
  after the starting one is free and passes the test, \<open>add_task\<close> returns, and the interval
  it chose is at or before that one; when none is, the scan runs off the end of the
  list. Whenever \<open>add_task\<close> returns, every interval from the starting one up to the chosen
  one is occupied or fails the test, the chosen one is free and passes it, the task's
  start time is \<open>max(chosen.start, earliest)\<close>, and the block with that start is in the
  machine's timeline.
\<close>

theorem add_task_first_fit:
  "let ivs = timeline_of s r; earliest = cursor s r; d = duration (task_at s r);
       k0 = interval_at ivs earliest
   in (\<forall>i. includes_from i earliest d \<longleftrightarrow> \<not> max (start i) earliest + d - 1 > end_t i)
      \<and> (\<forall>n<k0. \<not> includes_time (ivs ! n) earliest)
      \<and> (valid_ref s r \<and> k0 \<le> n \<and> n < length ivs
           \<and> \<not> occupied (ivs ! n) \<and> includes_from (ivs ! n) earliest d
         \<longrightarrow> (\<exists>s' k. add_task r s = Inr s' \<and> advance ivs k0 earliest d = Inr k \<and> k \<le> n))
      \<and> (valid_ref s r
           \<and> (\<forall>n. k0 \<le> n \<and> n < length ivs
                  \<longrightarrow> occupied (ivs ! n) \<or> \<not> includes_from (ivs ! n) earliest d)
         \<longrightarrow> add_task r s = Inl Past_The_End)
      \<and> (add_task r s = Inr s'
         \<longrightarrow> (\<exists>k. advance ivs k0 earliest d = Inr k
                  \<and> k0 < length ivs \<and> includes_time (ivs ! k0) earliest
                  \<and> k0 \<le> k \<and> k < length ivs
                  \<and> (\<forall>n. k0 \<le> n \<and> n < k \<longrightarrow>
                        occupied (ivs ! n) \<or> \<not> includes_from (ivs ! n) earliest d)
                  \<and> \<not> occupied (ivs ! k) \<and> includes_from (ivs ! k) earliest d
                  \<and> scheduled_time (task_at s' r) = max (start (ivs ! k)) earliest
                  \<and> \<lparr>start = max (start (ivs ! k)) earliest,
                      end_t = max (start (ivs ! k)) earliest + d - 1, task = Some r\<rparr>
                      \<in> set (table s' ! machine_of s r)))"
proof -
  let ?ivs = "timeline_of s r" and ?e = "cursor s r" and ?d = "duration (task_at s r)"
  let ?k0 = "interval_at ?ivs ?e"
  have test: "\<forall>i. includes_from i ?e ?d \<longleftrightarrow> \<not> max (start i) ?e + ?d - 1 > end_t i"
    by (simp add: includes_from_def not_less)
  have before: "\<forall>n<?k0. \<not> includes_time (?ivs ! n) ?e"
    by (simp add: interval_at_first)
  have found: "\<exists>s' k. add_task r s = Inr s' \<and> advance ?ivs ?k0 ?e ?d = Inr k \<and> k \<le> n"
    if h: "valid_ref s r \<and> ?k0 \<le> n \<and> n < length ?ivs
           \<and> \<not> occupied (?ivs ! n) \<and> includes_from (?ivs ! n) ?e ?d"
  proof -
    from h obtain k where k: "advance ?ivs ?k0 ?e ?d = Inr k"
      using advance_finds [of ?k0 n ?ivs ?e ?d] by blast
    from advance_Inr [OF k] h have "k \<le> n" by (meson not_le_imp_less)
    moreover from add_task_advance(2) [OF _ k] h obtain s' where "add_task r s = Inr s'"
      by blast
    ultimately show ?thesis using k by blast
  qed
  have none: "add_task r s = Inl Past_The_End"
    if h: "valid_ref s r
           \<and> (\<forall>n. ?k0 \<le> n \<and> n < length ?ivs
                  \<longrightarrow> occupied (?ivs ! n) \<or> \<not> includes_from (?ivs ! n) ?e ?d)"
  proof -
    from h have "advance ?ivs ?k0 ?e ?d = Inl Past_The_End" by (intro advance_none) simp
    with h show ?thesis by (intro add_task_advance(1)) simp_all
  qed
  have ret: "\<exists>k. advance ?ivs ?k0 ?e ?d = Inr k
                  \<and> ?k0 < length ?ivs \<and> includes_time (?ivs ! ?k0) ?e
                  \<and> ?k0 \<le> k \<and> k < length ?ivs
                  \<and> (\<forall>n. ?k0 \<le> n \<and> n < k \<longrightarrow>
                        occupied (?ivs ! n) \<or> \<not> includes_from (?ivs ! n) ?e ?d)
                  \<and> \<not> occupied (?ivs ! k) \<and> includes_from (?ivs ! k) ?e ?d
                  \<and> scheduled_time (task_at s' r) = max (start (?ivs ! k)) ?e
                  \<and> \<lparr>start = max (start (?ivs ! k)) ?e,
                      end_t = max (start (?ivs ! k)) ?e + ?d - 1, task = Some r\<rparr>
                      \<in> set (table s' ! machine_of s r)"
    if h: "add_task r s = Inr s'"
  proof -
    from h obtain k where k:
      "advance ?ivs ?k0 ?e ?d = Inr k"
      "task_at s' r = (task_at s r)\<lparr>scheduled_time := max (start (?ivs ! k)) ?e\<rparr>"
      "table s' ! machine_of s r =
          take k ?ivs @ placed_block (?ivs ! k) r (max (start (?ivs ! k)) ?e) ?d
          @ drop (Suc k) ?ivs"
      by (rule add_task_task_at)
    note a = advance_Inr [OF k(1)]
    have k0: "?k0 < length ?ivs" using a by simp
    have "includes_time (?ivs ! ?k0) ?e" using k0 by (rule interval_at_found)
    moreover have "\<lparr>start = max (start (?ivs ! k)) ?e,
         end_t = max (start (?ivs ! k)) ?e + ?d - 1, task = Some r\<rparr>
         \<in> set (table s' ! machine_of s r)"
      by (simp add: k(3) placed_block_def)
    ultimately show ?thesis using a k0 k(1,2) by (intro exI [of _ k]) simp
  qed
  show ?thesis
    unfolding Let_def using test before found none ret by blast
qed

text \<open>
  Job 1's first task in the scenario, after job 0's: the cursor is 0, the scan starts at
  the occupied block \<open>[0, 2]\<close>, passes it, and stops at the free interval from 3. On the
  full timeline the scan of the third job's task finds both intervals occupied and runs
  off the end.
\<close>

theorem add_task_first_fit_witness:
  "valid_ref scenario_first (1, 0)
   \<and> cursor scenario_first (1, 0) = 0 \<and> duration (task_at scenario_first (1, 0)) = 2
   \<and> interval_at (timeline_of scenario_first (1, 0)) 0 = 0
   \<and> length (timeline_of scenario_first (1, 0)) = 2
   \<and> occupied (timeline_of scenario_first (1, 0) ! 0)
   \<and> \<not> occupied (timeline_of scenario_first (1, 0) ! 1)
   \<and> includes_from (timeline_of scenario_first (1, 0) ! 1) 0 2
   \<and> start (timeline_of scenario_first (1, 0) ! 1) = 3
   \<and> add_task (1, 0) scenario_first = Inr scenario_second
   \<and> advance (timeline_of scenario_first (1, 0)) 0 0 2 = Inr 1
   \<and> scheduled_time (task_at scenario_second (1, 0)) = 3
   \<and> \<lparr>start = 3, end_t = 4, task = Some (1, 0)\<rparr>
       \<in> set (table scenario_second ! machine_of scenario_first (1, 0))
   \<and> add_tasks 0 [0, 1] (schedule_init full_data) = Inr full_state
   \<and> valid_ref full_state (2, 0)
   \<and> interval_at (timeline_of full_state (2, 0)) (cursor full_state (2, 0)) = 0
   \<and> length (timeline_of full_state (2, 0)) = 2
   \<and> list_all occupied (timeline_of full_state (2, 0))
   \<and> add_task (2, 0) full_state = Inl Past_The_End"
proof -
  have fs: "add_tasks 0 [0, 1] (schedule_init full_data) = Inr full_state" by code_simp
  have fv: "valid_ref full_state (2, 0)" by code_simp
  have fc: "interval_at (timeline_of full_state (2, 0)) (cursor full_state (2, 0)) = 0"
    "length (timeline_of full_state (2, 0)) = 2" by code_simp+
  have fo: "list_all occupied (timeline_of full_state (2, 0))" by code_simp
  have fo': "\<forall>n. 0 \<le> n \<and> n < 2 \<longrightarrow>
      occupied (timeline_of full_state (2, 0) ! n)
      \<or> \<not> includes_from (timeline_of full_state (2, 0) ! n) (cursor full_state (2, 0))
            (duration (task_at full_state (2, 0)))"
    using fo fc(2) by (simp add: list_all_length)
  note u = add_task_first_fit [of full_state "(2, 0)" 0 full_state, unfolded Let_def fc]
  have fp: "add_task (2, 0) full_state = Inl Past_The_End"
    using u fv fo' by blast
  have v: "valid_ref scenario_first (1, 0)" by code_simp
  have c: "cursor scenario_first (1, 0) = 0" "duration (task_at scenario_first (1, 0)) = 2"
    "interval_at (timeline_of scenario_first (1, 0)) 0 = 0"
    "length (timeline_of scenario_first (1, 0)) = 2"
    "start (timeline_of scenario_first (1, 0) ! 1) = 3"
    by code_simp+
  have o: "occupied (timeline_of scenario_first (1, 0) ! 0)"
    "\<not> occupied (timeline_of scenario_first (1, 0) ! 1)" by code_simp+
  have f: "includes_from (timeline_of scenario_first (1, 0) ! 1) 0 2"
    by (simp add: includes_from_def timeline_of_def machine_of_def task_at_def parent_at_def
          scenario_first_def)
  note t = add_task_first_fit [of scenario_first "(1, 0)" 1 scenario_second,
      unfolded Let_def c]
  from t v o f obtain s' k where
    r: "add_task (1, 0) scenario_first = Inr s'"
      "advance (timeline_of scenario_first (1, 0)) 0 0 2 = Inr k" "k \<le> 1"
    by auto
  have a: "add_task (1, 0) scenario_first = Inr scenario_second" by code_simp
  from t a obtain k' where
    k': "advance (timeline_of scenario_first (1, 0)) 0 0 2 = Inr k'"
      "k' < 2" "\<not> occupied (timeline_of scenario_first (1, 0) ! k')"
      "scheduled_time (task_at scenario_second (1, 0))
         = max (start (timeline_of scenario_first (1, 0) ! k')) 0"
      "\<lparr>start = max (start (timeline_of scenario_first (1, 0) ! k')) 0,
        end_t = max (start (timeline_of scenario_first (1, 0) ! k')) 0 + 2 - 1,
        task = Some (1, 0)\<rparr>
        \<in> set (table scenario_second ! machine_of scenario_first (1, 0))"
    by blast
  have "k' \<noteq> 0" using k'(3) o(1) by (intro notI) simp
  with k'(2) have k1: "k' = 1" by simp
  have adv: "advance (timeline_of scenario_first (1, 0)) 0 0 2 = Inr 1"
    using k'(1) unfolding k1 .
  have st: "scheduled_time (task_at scenario_second (1, 0)) = 3"
    using k'(4) unfolding k1 c by simp
  have blk: "\<lparr>start = 3, end_t = 4, task = Some (1, 0)\<rparr>
       \<in> set (table scenario_second ! machine_of scenario_first (1, 0))"
    using k'(5) unfolding k1 c by simp
  show ?thesis by (intro conjI v c o f a adv st blk fs fv fc fo fp)
qed

text \<open>
  C5. When \<open>add_task\<close> returns, the machine's timeline is the old one with the chosen
  (free) interval \<open>[interval_start, interval_end]\<close> replaced by: a free interval
  \<open>[interval_start, actual_start - 1]\<close> exactly when \<open>actual_start > interval_start\<close>, the
  block \<open>[actual_start, actual_start + duration - 1]\<close> bound to the task, and a free
  interval \<open>[actual_start + duration, interval_end]\<close> exactly when
  \<open>actual_start + duration - 1 < interval_end\<close>. All other intervals stay, in order, so no
  timeline gets shorter, and the other machines' timelines are untouched.
\<close>

theorem placement_splits_interval:
  assumes "add_task r s = Inr s'"
  shows "\<exists>k<length (timeline_of s r).
           let ivs = timeline_of s r;
               interval_start = start (ivs ! k); interval_end = end_t (ivs ! k);
               actual_start = max interval_start (cursor s r); d = duration (task_at s r)
           in \<not> occupied (ivs ! k)
              \<and> table s' ! machine_of s r =
                  take k ivs
                  @ (if actual_start > interval_start
                     then [\<lparr>start = interval_start, end_t = actual_start - 1, task = None\<rparr>]
                     else [])
                  @ [\<lparr>start = actual_start, end_t = actual_start + d - 1, task = Some r\<rparr>]
                  @ (if actual_start + d - 1 < interval_end
                     then [\<lparr>start = actual_start + d, end_t = interval_end, task = None\<rparr>]
                     else [])
                  @ drop (Suc k) ivs
              \<and> length ivs \<le> length (table s' ! machine_of s r)
              \<and> length (table s') = length (table s)
              \<and> (\<forall>m. m \<noteq> machine_of s r \<longrightarrow> table s' ! m = table s ! m)"
proof -
  from assms obtain k where k:
    "advance (timeline_of s r) (interval_at (timeline_of s r) (cursor s r)) (cursor s r)
        (duration (task_at s r)) = Inr k"
    "table s' ! machine_of s r =
        take k (timeline_of s r)
        @ placed_block (timeline_of s r ! k) r (max (start (timeline_of s r ! k)) (cursor s r))
            (duration (task_at s r))
        @ drop (Suc k) (timeline_of s r)"
    by (rule add_task_task_at)
  note a = advance_Inr [OF k(1)]
  have len: "k < length (timeline_of s r)" using a by simp
  have "length (timeline_of s r) \<le> length (table s' ! machine_of s r)"
    using len by (simp add: k(2) placed_block_def)
  then show ?thesis
    using a len add_task_table_frame [OF assms]
    by (intro exI [of _ k]) (simp add: Let_def k(2) placed_block_def interval_empty_def)
qed

theorem placement_splits_interval_witness:
  "add_task (0, 0) (schedule_init scenario) = Inr scenario_first
   \<and> (\<exists>k<length (timeline_of (schedule_init scenario) (0, 0)).
           let ivs = timeline_of (schedule_init scenario) (0, 0);
               interval_start = start (ivs ! k); interval_end = end_t (ivs ! k);
               actual_start = max interval_start (cursor (schedule_init scenario) (0, 0)); d = duration (task_at (schedule_init scenario) (0, 0))
           in \<not> occupied (ivs ! k)
              \<and> table scenario_first ! machine_of (schedule_init scenario) (0, 0) =
                  take k ivs
                  @ (if actual_start > interval_start
                     then [\<lparr>start = interval_start, end_t = actual_start - 1, task = None\<rparr>]
                     else [])
                  @ [\<lparr>start = actual_start, end_t = actual_start + d - 1, task = Some (0, 0)\<rparr>]
                  @ (if actual_start + d - 1 < interval_end
                     then [\<lparr>start = actual_start + d, end_t = interval_end, task = None\<rparr>]
                     else [])
                  @ drop (Suc k) ivs
              \<and> length ivs \<le> length (table scenario_first ! machine_of (schedule_init scenario) (0, 0))
              \<and> length (table scenario_first) = length (table (schedule_init scenario))
              \<and> (\<forall>m. m \<noteq> machine_of (schedule_init scenario) (0, 0) \<longrightarrow> table scenario_first ! m = table (schedule_init scenario) ! m))"
proof -
  have h: "add_task (0, 0) (schedule_init scenario) = Inr scenario_first" by code_simp
  from h placement_splits_interval [OF h] show ?thesis by (rule conjI)
qed

text \<open>
  C6. On the scenario (job 0: machine 0 for 3, machine 1 for 2; job 1: machine 0 for 2,
  machine 1 for 4) with the longest-operation-first heuristic, \<open>schedule_jobs\<close> returns;
  job 0's tasks start at 0 and 3, job 1's at 3 and 5, and \<open>longest_timeline\<close> is 9.
\<close>

theorem scenario_dispatch:
  "case schedule_jobs longest_first (schedule_init scenario) of
     Inl e \<Rightarrow> False
   | Inr s \<Rightarrow>
       map job_id (jobs (data s)) = [0, 1]
       \<and> map (\<lambda>j. map scheduled_time (sequence j)) (jobs (data s)) = [[0, 3], [3, 5]]
       \<and> longest_timeline s = Inr 9"
  by code_simp

text \<open>
  C7. On a timeline that satisfies the invariant, \<open>interval_at\<close> returns a handle inside
  the list, on an interval that contains the time; the last interval is free and passes
  the capacity test for every duration; the scan of \<open>add_task\<close> returns a handle on a free
  interval that passes the test instead of running off the end; and \<open>add_task\<close> itself
  returns a state for every valid task of that machine.
\<close>

theorem lookup_and_scan_succeed:
  assumes "timeline_inv ivs"
  shows "interval_at ivs t < length ivs \<and> includes_time (ivs ! interval_at ivs t) t
         \<and> \<not> occupied (last ivs) \<and> includes_from (last ivs) t d
         \<and> (\<exists>k. advance ivs (interval_at ivs t) t d = Inr k \<and> k < length ivs
                \<and> \<not> occupied (ivs ! k) \<and> includes_from (ivs ! k) t d)
         \<and> (valid_ref s r \<and> timeline_of s r = ivs \<longrightarrow> (\<exists>s'. add_task r s = Inr s'))"
proof -
  have t: "tiles 0 ivs" using assms by (simp add: timeline_inv_def)
  have k0: "interval_at ivs t < length ivs" using t by (rule tiles_interval_at) simp
  from tiles_advance [OF t k0] obtain k where k: "advance ivs (interval_at ivs t) t d = Inr k"
    by blast
  have "includes_from (last ivs) t d" using tiles_last [OF t] by (simp add: includes_from_def)
  moreover have "valid_ref s r \<and> timeline_of s r = ivs \<longrightarrow> (\<exists>s'. add_task r s = Inr s')"
    using t by (auto intro: add_task_total)
  ultimately show ?thesis
    using k0 interval_at_found [OF k0] k advance_Inr [OF k] tiles_last [OF t] by auto
qed

theorem lookup_and_scan_succeed_witness:
  "timeline_inv (table scenario_first ! 0)
   \<and> interval_at (table scenario_first ! 0) 0 < length (table scenario_first ! 0)
   \<and> includes_time (table scenario_first ! 0 ! interval_at (table scenario_first ! 0) 0) 0
   \<and> (\<exists>k. advance (table scenario_first ! 0) (interval_at (table scenario_first ! 0) 0) 0 2
            = Inr k
          \<and> \<not> occupied (table scenario_first ! 0 ! k)
          \<and> includes_from (table scenario_first ! 0 ! k) 0 2)
   \<and> (\<exists>s'. add_task (1, 0) scenario_first = Inr s')"
proof -
  have h: "timeline_inv (table scenario_first ! 0)" by code_simp
  have v: "valid_ref scenario_first (1, 0) \<and> timeline_of scenario_first (1, 0) = table scenario_first ! 0"
    by code_simp
  from lookup_and_scan_succeed [OF h, of 0 2 scenario_first "(1, 0)"] v h
  show ?thesis by blast
qed

text \<open>
  C8. For a timeline with at least one interval, \<open>length()\<close> is the last interval's
  \<open>end + 1\<close> when that interval is occupied and its \<open>start\<close> otherwise. \<open>operator<\<close> compares
  the two lengths: it is irreflexive, asymmetric and transitive, and two timelines are
  ordered one way or the other unless their lengths are equal.
\<close>

theorem length_and_order:
  assumes "a \<noteq> []" "b \<noteq> []" "c \<noteq> []"
  shows "length_tl a = Inr (if occupied (last a) then end_t (last a) + 1 else start (last a))
         \<and> (\<exists>la lb. length_tl a = Inr la \<and> length_tl b = Inr lb
                \<and> timeline_less a b = Inr (la < lb))
         \<and> timeline_less a a = Inr False
         \<and> (timeline_less a b = Inr True \<longrightarrow> timeline_less b a = Inr False)
         \<and> (timeline_less a b = Inr True \<and> timeline_less b c = Inr True
              \<longrightarrow> timeline_less a c = Inr True)
         \<and> (timeline_less a b = Inr True \<or> timeline_less b a = Inr True
              \<or> length_tl a = length_tl b)"
proof -
  have ex: "\<And>x. x \<noteq> [] \<Longrightarrow> \<exists>l. length_tl x = Inr l" by (simp add: length_tl_def)
  from ex [OF assms(1)] ex [OF assms(2)] ex [OF assms(3)]
  obtain la lb lc where l: "length_tl a = Inr la" "length_tl b = Inr lb" "length_tl c = Inr lc"
    by blast
  have less: "timeline_less a b = Inr (la < lb)" "timeline_less b a = Inr (lb < la)"
    "timeline_less b c = Inr (lb < lc)" "timeline_less a c = Inr (la < lc)"
    "timeline_less a a = Inr False"
    by (simp_all add: timeline_less_def l)
  have "length_tl a = Inr (if occupied (last a) then end_t (last a) + 1 else start (last a))"
    using assms(1) by (simp add: length_tl_def)
  moreover have "la < lb \<or> lb < la \<or> la = lb" by auto
  ultimately show ?thesis unfolding less l by auto
qed

theorem length_and_order_witness:
  "table (schedule_init scenario) ! 0 \<noteq> [] \<and> table scenario_first ! 0 \<noteq> []
   \<and> length_tl (table (schedule_init scenario) ! 0) = Inr 0
   \<and> length_tl (table scenario_first ! 0) = Inr 3
   \<and> timeline_less (table (schedule_init scenario) ! 0) (table scenario_first ! 0) = Inr True
   \<and> timeline_less (table scenario_first ! 0) (table (schedule_init scenario) ! 0) = Inr False"
proof -
  have a: "table (schedule_init scenario) ! 0 \<noteq> []" by code_simp
  have b: "table scenario_first ! 0 \<noteq> []" by code_simp
  have la: "start (last (table (schedule_init scenario) ! 0)) = 0"
    "\<not> occupied (last (table (schedule_init scenario) ! 0))" by code_simp+
  have lb: "start (last (table scenario_first ! 0)) = 3"
    "\<not> occupied (last (table scenario_first ! 0))" by code_simp+
  note t = length_and_order [OF a b a] length_and_order [OF b a a]
  have 1: "length_tl (table (schedule_init scenario) ! 0) = Inr 0" using t(1) la by simp
  have 2: "length_tl (table scenario_first ! 0) = Inr 3" using t(2) lb by simp
  have 3: "timeline_less (table (schedule_init scenario) ! 0) (table scenario_first ! 0) = Inr True"
    using t(1) 1 2 by auto
  have 4: "timeline_less (table scenario_first ! 0) (table (schedule_init scenario) ! 0) = Inr False"
    using t(1) 3 by blast
  from a b 1 2 3 4 show ?thesis by simp
qed

text \<open>
  C9. When there is at least one machine and no timeline is empty, \<open>longest_timeline\<close>
  returns the \<open>length()\<close> of one of the timelines, and no timeline's \<open>length()\<close> is larger.
  \<open>summary\<close> is that number in decimal and a newline, then for every job in the order of
  \<open>data.jobs\<close> its tasks' start times in sequence order, each in decimal and followed by one
  space, and a newline. The decimals read back as the numbers and contain neither a
  newline nor a space, so the lines and the fields are the ones written.
\<close>

theorem makespan_and_summary:
  assumes "table s \<noteq> []" "\<forall>ivs \<in> set (table s). ivs \<noteq> []"
  shows "\<exists>m. longest_timeline s = Inr m
           \<and> (\<exists>ivs \<in> set (table s). length_tl ivs = Inr m)
           \<and> (\<forall>ivs \<in> set (table s). \<exists>l. length_tl ivs = Inr l \<and> l \<le> m)
           \<and> summary s =
               Inr (decimal (unat m) @ [CHR 10]
                    @ concat (map (\<lambda>j. concat (map (\<lambda>t. decimal (unat (scheduled_time t)) @ '' '')
                                                   (sequence j)) @ [CHR 10])
                                  (jobs (data s))))
           \<and> digits_value (decimal (unat m)) = unat m
           \<and> CHR 10 \<notin> set (decimal (unat m))
           \<and> (\<forall>j \<in> set (jobs (data s)). \<forall>t \<in> set (sequence j).
                 digits_value (decimal (unat (scheduled_time t))) = unat (scheduled_time t)
                 \<and> CHR 10 \<notin> set (decimal (unat (scheduled_time t)))
                 \<and> CHR '' '' \<notin> set (decimal (unat (scheduled_time t))))"
proof -
  obtain t ts where tab: "table s = t # ts" using assms(1) by (cases "table s") auto
  with assms(2) have "t \<noteq> []" "\<forall>ivs \<in> set ts. ivs \<noteq> []" by auto
  from max_element_Inr [OF this]
  obtain largest m where r: "max_element t ts = Inr largest" "largest \<in> set (t # ts)"
    "length_tl largest = Inr m"
    "\<forall>ivs \<in> set (t # ts). \<exists>l'. length_tl ivs = Inr l' \<and> l' \<le> m"
    by blast
  have lt: "longest_timeline s = Inr m" by (simp add: longest_timeline_def tab r)
  have "summary s = Inr (decimal (unat m) @ [CHR 10] @ concat (map job_line (jobs (data s))))"
    by (simp add: summary_def lt)
  then have su: "summary s =
               Inr (decimal (unat m) @ [CHR 10]
                    @ concat (map (\<lambda>j. concat (map (\<lambda>t. decimal (unat (scheduled_time t)) @ '' '')
                                                   (sequence j)) @ [CHR 10])
                                  (jobs (data s))))"
    by (simp add: job_line_def [abs_def])
  show ?thesis
    using lt su r(2,3,4)
    by (intro exI [of _ m]) (auto simp: tab digits_value_decimal decimal_no_break)
qed

theorem makespan_and_summary_witness:
  "table scenario_swapped_final \<noteq> []
   \<and> list_all (\<lambda>ivs. ivs \<noteq> []) (table scenario_swapped_final)
   \<and> map length_tl (table scenario_swapped_final) = [Inr 5, Inr 9]
   \<and> longest_timeline scenario_swapped_final = Inr 9
   \<and> summary scenario_swapped_final
       = Inr (''9'' @ [CHR 10] @ ''0 3 '' @ [CHR 10] @ ''3 5 '' @ [CHR 10])"
proof -
  have h1: "table scenario_swapped_final \<noteq> []" by code_simp
  have h2: "list_all (\<lambda>ivs. ivs \<noteq> []) (table scenario_swapped_final)" by code_simp
  then have h2': "\<forall>ivs \<in> set (table scenario_swapped_final). ivs \<noteq> []"
    by (simp only: list_all_iff)
  have h3: "map length_tl (table scenario_swapped_final) = [Inr 5, Inr 9]" by code_simp
  have l: "longest_timeline scenario_swapped_final = Inr 9" by code_simp
  from makespan_and_summary [OF h1 h2'] obtain m where
    m: "longest_timeline scenario_swapped_final = Inr m"
    "summary scenario_swapped_final =
       Inr (decimal (unat m) @ [CHR 10]
            @ concat (map (\<lambda>j. concat (map (\<lambda>t. decimal (unat (scheduled_time t)) @ '' '')
                                           (sequence j)) @ [CHR 10])
                          (jobs (data scenario_swapped_final))))"
    by blast
  from m(1) l have m9: "m = 9" by simp
  have e: "decimal (unat (9 :: time32_t)) @ [CHR 10]
            @ concat (map (\<lambda>j. concat (map (\<lambda>t. decimal (unat (scheduled_time t)) @ '' '')
                                           (sequence j)) @ [CHR 10])
                          (jobs (data scenario_swapped_final)))
           = ''9'' @ [CHR 10] @ ''0 3 '' @ [CHR 10] @ ''3 5 '' @ [CHR 10]"
    by code_simp
  have su: "summary scenario_swapped_final
       = Inr (''9'' @ [CHR 10] @ ''0 3 '' @ [CHR 10] @ ''3 5 '' @ [CHR 10])"
    using m(2) unfolding m9 e .
  show ?thesis by (intro conjI h1 h2 h3 l su)
qed



end
